theory Spec2Isabelle
  imports Complex_Main "HOL-Library.Multiset"
begin

section \<open>Conventions of the embedding\<close>

text \<open>
  The scanner is a single Python module, \<^verbatim>\<open>whale_scanner.py\<close>. Its functions are
  embedded one by one, under their own names.

  \<^item> A Python \<^verbatim>\<open>float\<close> is a \<^typ>\<open>real\<close>: arithmetic is exact (no rounding, no
    overflow). Where the code tests a float with \<^verbatim>\<open>math.isfinite\<close>, in the window
    metrics, the float is a \<open>pyfloat\<close>, which also has \<^verbatim>\<open>inf\<close>, \<^verbatim>\<open>-inf\<close> and
    \<^verbatim>\<open>nan\<close>.
  \<^item> A Python \<^verbatim>\<open>int\<close> is an \<^typ>\<open>int\<close>.
  \<^item> \<^verbatim>\<open>None\<close> in an \<^verbatim>\<open>Optional[float]\<close> is \<^term>\<open>None\<close>.
  \<^item> An exception that the code does not catch is a value \<open>Inl e\<close> of a sum type.
\<close>

datatype py_error = ZeroDivisionError | ValueError

text \<open>Float division: Python raises on a zero divisor.\<close>

definition py_div :: "real \<Rightarrow> real \<Rightarrow> py_error + real" where
  "py_div a b = (if b = 0 then Inl ZeroDivisionError else Inr (a / b))"

section \<open>Small helpers\<close>

text \<open>
  \<^verbatim>\<open>max_drawdown\<close>: the running peak starts at the first element, the loop visits
  every element (the first one too), and a step whose peak is zero contributes
  \<open>0.0\<close> instead of dividing.
\<close>

fun max_drawdown_loop :: "real list \<Rightarrow> real \<Rightarrow> real \<Rightarrow> py_error + real" where
  "max_drawdown_loop [] peak mdd = Inr mdd"
| "max_drawdown_loop (v # vs) peak mdd =
     (let peak' = (if v > peak then v else peak) in
      case (if peak' \<noteq> 0 then py_div (peak' - v) peak' else Inr 0) of
        Inl e \<Rightarrow> Inl e
      | Inr dd \<Rightarrow> max_drawdown_loop vs peak' (max mdd dd))"

definition max_drawdown :: "real list \<Rightarrow> py_error + real option" where
  "max_drawdown series =
     (if length series < 2 then Inr None
      else case max_drawdown_loop series (hd series) 0 of
             Inl e \<Rightarrow> Inl e
           | Inr mdd \<Rightarrow> Inr (Some mdd))"

section \<open>Rate limiter\<close>

text \<open>
  The class \<^verbatim>\<open>RateLimiter\<close>. The field \<^verbatim>\<open>_last_ts\<close> and the method
  \<^verbatim>\<open>wait\<close> read the wall clock and sleep; they never touch the cooldown and are
  left out of the record.
\<close>

record RateLimiter =
  min_interval_s :: real
  max_interval_s :: real
  cooldown :: real

definition RateLimiter_init :: "real \<Rightarrow> real \<Rightarrow> RateLimiter" where
  "RateLimiter_init mn mx =
     \<lparr>min_interval_s = mn, max_interval_s = mx, cooldown = 0\<rparr>"

definition note_error :: "RateLimiter \<Rightarrow> RateLimiter" where
  "note_error l =
     l\<lparr>cooldown := min (max_interval_s l) (max (cooldown l * 1.6) (min_interval_s l))\<rparr>"

definition note_ok :: "RateLimiter \<Rightarrow> RateLimiter" where
  "note_ok l = l\<lparr>cooldown := max 0 (cooldown l * 0.85 - 0.01)\<rparr>"

text \<open>A caller's sequence of \<^verbatim>\<open>note_error()\<close> and \<^verbatim>\<open>note_ok()\<close> calls.\<close>

datatype limiter_call = CallNoteError | CallNoteOk

fun limiter_step :: "limiter_call \<Rightarrow> RateLimiter \<Rightarrow> RateLimiter" where
  "limiter_step CallNoteError l = note_error l"
| "limiter_step CallNoteOk l = note_ok l"

definition run_calls :: "limiter_call list \<Rightarrow> RateLimiter \<Rightarrow> RateLimiter" where
  "run_calls cs l = fold limiter_step cs l"

section \<open>Scoring\<close>

text \<open>\<^verbatim>\<open>style_label\<close>: a missing volatility or drawdown counts as \<open>0.0\<close>.\<close>

definition style_label :: "real \<Rightarrow> real option \<Rightarrow> real option \<Rightarrow> string" where
  "style_label risk vol mdd_pct =
     (let v = (case vol of Some x \<Rightarrow> x | None \<Rightarrow> 0);
          d = (case mdd_pct of Some x \<Rightarrow> x | None \<Rightarrow> 0)
      in if risk \<ge> 70 \<or> v \<ge> 5 \<or> d \<ge> 25 then ''aggressive''
         else if risk \<ge> 40 \<or> v \<ge> 2 \<or> d \<ge> 12 then ''balanced''
         else ''stable'')"

section \<open>Resilient transport\<close>

text \<open>
  A parsed JSON value. Python's \<^verbatim>\<open>None\<close> (a JSON \<^verbatim>\<open>null\<close>, and the "no result" of
  the transport) is \<open>JNull\<close>; a \<^verbatim>\<open>dict\<close> keeps its items in order.
\<close>

datatype json =
  JNull | JBool bool | JNum real | JStr string | JList "json list" | JDict "(string \<times> json) list"

text \<open>
  What one \<^verbatim>\<open>sess.post\<close> does: it raises, or it returns a response with a status
  code whose body parses as JSON (\<open>Some\<close>) or makes \<^verbatim>\<open>r.json()\<close> raise (\<open>None\<close>).
\<close>

datatype http_reply = Raised | Reply int "json option"

record RetryCfg =
  retries :: int
  timeout_s :: int
  backoff_base_s :: real
  backoff_cap_s :: real
  jitter_s :: real

text \<open>
  The client holds the limiter. The calls it makes on the limiter and the sleeps between
  attempts are recorded, in order, in \<open>events\<close>; the record stands for the observable
  behaviour of \<^verbatim>\<open>HLClient\<close>, whose wall-clock waiting is not modelled. The retry
  configuration is never assigned after construction and is passed beside the client.
\<close>

datatype event = EvWait | EvNoteError | EvNoteOk | EvSleepBackoff nat

record HLClient =
  limiter :: RateLimiter
  events :: "event list"

definition client_wait :: "HLClient \<Rightarrow> HLClient" where
  "client_wait c = c\<lparr>events := events c @ [EvWait]\<rparr>"

definition client_note_error :: "HLClient \<Rightarrow> HLClient" where
  "client_note_error c =
     c\<lparr>limiter := note_error (limiter c), events := events c @ [EvNoteError]\<rparr>"

definition client_note_ok :: "HLClient \<Rightarrow> HLClient" where
  "client_note_ok c =
     c\<lparr>limiter := note_ok (limiter c), events := events c @ [EvNoteOk]\<rparr>"

definition sleep_backoff :: "nat \<Rightarrow> HLClient \<Rightarrow> HLClient" where
  "sleep_backoff attempt c = c\<lparr>events := events c @ [EvSleepBackoff attempt]\<rparr>"

text \<open>
  The body of one pass through the loop of \<^verbatim>\<open>_post_json\<close> ends in \<^verbatim>\<open>return\<close> or in
  \<^verbatim>\<open>continue\<close>.
\<close>

datatype outcome = Return json | Continue

text \<open>
  The tail shared by the three retryable branches:
  \<^verbatim>\<open>if attempt < self.retry.retries: self._sleep_backoff(attempt); continue\<close>, then
  \<^verbatim>\<open>return None\<close>.
\<close>

definition retry_or_fail :: "RetryCfg \<Rightarrow> nat \<Rightarrow> HLClient \<Rightarrow> outcome \<times> HLClient" where
  "retry_or_fail cfg attempt c =
     (if int attempt < retries cfg then (Continue, sleep_backoff attempt c)
      else (Return JNull, c))"

definition handle_reply :: "RetryCfg \<Rightarrow> nat \<Rightarrow> http_reply \<Rightarrow> HLClient \<Rightarrow> outcome \<times> HLClient" where
  "handle_reply cfg attempt r c =
     (case r of
        Raised \<Rightarrow> retry_or_fail cfg attempt (client_note_error c)
      | Reply status_code body \<Rightarrow>
          if status_code = 200 then
            (case body of
               Some out \<Rightarrow> (Return out, client_note_ok c)
             | None \<Rightarrow> retry_or_fail cfg attempt (client_note_error c))
          else if status_code \<in> {429, 500, 502, 503, 504} then
            retry_or_fail cfg attempt (client_note_error c)
          else (Return JNull, client_note_ok c))"

text \<open>
  \<^verbatim>\<open>_post_json\<close>: \<^verbatim>\<open>for attempt in range(self.retry.retries + 1)\<close>, with \<open>net k\<close> the
  reply the network gives to attempt \<open>k\<close>.
\<close>

function post_json_from :: "(nat \<Rightarrow> http_reply) \<Rightarrow> RetryCfg \<Rightarrow> nat \<Rightarrow> HLClient \<Rightarrow> json \<times> HLClient" where
  "post_json_from net cfg attempt c =
     (if int attempt < retries cfg + 1 then
        (case handle_reply cfg attempt (net attempt) (client_wait c) of
           (Return out, c') \<Rightarrow> (out, c')
         | (Continue, c') \<Rightarrow> post_json_from net cfg (Suc attempt) c')
      else (JNull, c))"
  by pat_completeness auto
termination
  by (relation "measure (\<lambda>(net, cfg, attempt, c). nat (retries cfg + 1) - attempt)") auto

definition post_json :: "(nat \<Rightarrow> http_reply) \<Rightarrow> RetryCfg \<Rightarrow> HLClient \<Rightarrow> json \<times> HLClient" where
  "post_json net cfg c = post_json_from net cfg 0 c"

section \<open>Positions and the risk score\<close>

text \<open>
  The dataclass \<^verbatim>\<open>PositionView\<close>. Its field \<^verbatim>\<open>size\<close> is \<open>pos_size\<close> here.
\<close>

record PositionView =
  coin :: string
  side :: string
  pos_size :: real
  entry_px :: real
  mid_px :: "real option"
  position_value :: real
  unrealized_pnl :: real
  roe_pct :: "real option"
  leverage :: real
  liquidation_px :: "real option"
  margin_used :: real
  notional_pct_equity :: "real option"
  liq_distance_pct :: "real option"
  age_days :: "real option"

text \<open>The local variables of \<^verbatim>\<open>risk_score\<close>, each under its own name.\<close>

definition total_margin :: "PositionView list \<Rightarrow> real" where
  "total_margin positions = sum_list (map margin_used positions)"

text \<open>\<^verbatim>\<open>max(..., default=0.0)\<close>: the default is the result on no element only.\<close>

definition max_lev :: "PositionView list \<Rightarrow> real" where
  "max_lev positions =
     (case map leverage positions of [] \<Rightarrow> 0 | l # ls \<Rightarrow> fold max ls l)"

definition liq_dists :: "PositionView list \<Rightarrow> real list" where
  "liq_dists positions = List.map_filter liq_distance_pct positions"

text \<open>\<^verbatim>\<open>closest = min(liq_dists)\<close>, computed under \<^verbatim>\<open>if liq_dists\<close> only.\<close>

definition closest :: "PositionView list \<Rightarrow> real option" where
  "closest positions =
     (case liq_dists positions of [] \<Rightarrow> None | d # ds \<Rightarrow> Some (fold min ds d))"

definition risk_score :: "real \<Rightarrow> PositionView list \<Rightarrow> real" where
  "risk_score account_value positions =
     (if account_value \<le> 0 \<or> positions = [] then 0
      else
        let margin_ratio = min 1 (total_margin positions / account_value);
            lev_score = min 1 (max_lev positions / 50);
            liq_score = (case closest positions of
                           None \<Rightarrow> 0.25
                         | Some cl \<Rightarrow> 1 - min 1 (cl / 50));
            score = 100 * (0.40 * margin_ratio + 0.30 * lev_score + 0.30 * liq_score)
        in max 0 (min 100 score))"

section \<open>Window metrics\<close>

text \<open>
  \<^verbatim>\<open>stdev\<close>: the sample standard deviation (divisor \<open>n - 1\<close>).
\<close>

definition stdev :: "real list \<Rightarrow> real option" where
  "stdev values =
     (if length values < 2 then None
      else
        let m = sum_list values / real (length values);
            var = sum_list (map (\<lambda>v. (v - m) ^ 2) values) / real (length values - 1)
        in Some (sqrt var))"

text \<open>
  The values of a portfolio window come from \<^verbatim>\<open>to_float\<close>, that is from \<^verbatim>\<open>float(x)\<close>,
  which also yields \<^verbatim>\<open>inf\<close>, \<^verbatim>\<open>-inf\<close> and \<^verbatim>\<open>nan\<close>; \<^verbatim>\<open>window_return_metrics\<close>
  tests them with \<^verbatim>\<open>math.isfinite\<close>. Such a float is a \<open>pyfloat\<close>: a finite value, one
  of the two infinities, or not a number. Arithmetic and comparisons follow IEEE 754 on
  the non-finite values and are exact on the finite ones (no rounding, no overflow, one
  zero).
\<close>

datatype pyfloat = Fin real | PInf | NInf | NaN

definition isfinite :: "pyfloat \<Rightarrow> bool" where
  "isfinite v = (case v of Fin x \<Rightarrow> True | _ \<Rightarrow> False)"

text \<open>\<^verbatim>\<open>v > e\<close> and \<^verbatim>\<open>v <= e\<close> for a float \<open>v\<close> and a finite \<open>e\<close>.\<close>

fun pf_gt :: "pyfloat \<Rightarrow> real \<Rightarrow> bool" where
  "pf_gt (Fin x) e = (x > e)"
| "pf_gt PInf e = True"
| "pf_gt NInf e = False"
| "pf_gt NaN e = False"

fun pf_le :: "pyfloat \<Rightarrow> real \<Rightarrow> bool" where
  "pf_le (Fin x) e = (x \<le> e)"
| "pf_le PInf e = False"
| "pf_le NInf e = True"
| "pf_le NaN e = False"

fun pf_sub :: "pyfloat \<Rightarrow> pyfloat \<Rightarrow> pyfloat" where
  "pf_sub NaN b = NaN"
| "pf_sub a NaN = NaN"
| "pf_sub (Fin x) (Fin y) = Fin (x - y)"
| "pf_sub (Fin x) PInf = NInf"
| "pf_sub (Fin x) NInf = PInf"
| "pf_sub PInf PInf = NaN"
| "pf_sub PInf b = PInf"
| "pf_sub NInf NInf = NaN"
| "pf_sub NInf b = NInf"

fun pf_mul :: "pyfloat \<Rightarrow> pyfloat \<Rightarrow> pyfloat" where
  "pf_mul NaN b = NaN"
| "pf_mul a NaN = NaN"
| "pf_mul (Fin x) (Fin y) = Fin (x * y)"
| "pf_mul (Fin x) PInf = (if x = 0 then NaN else if x > 0 then PInf else NInf)"
| "pf_mul (Fin x) NInf = (if x = 0 then NaN else if x > 0 then NInf else PInf)"
| "pf_mul PInf (Fin y) = (if y = 0 then NaN else if y > 0 then PInf else NInf)"
| "pf_mul NInf (Fin y) = (if y = 0 then NaN else if y > 0 then NInf else PInf)"
| "pf_mul PInf PInf = PInf"
| "pf_mul PInf NInf = NInf"
| "pf_mul NInf PInf = NInf"
| "pf_mul NInf NInf = PInf"

text \<open>Float division raises on a zero divisor, whatever the dividend.\<close>

fun pf_div :: "pyfloat \<Rightarrow> pyfloat \<Rightarrow> py_error + pyfloat" where
  "pf_div a (Fin y) =
     (if y = 0 then Inl ZeroDivisionError
      else Inr (case a of
                  Fin x \<Rightarrow> Fin (x / y)
                | PInf \<Rightarrow> if y > 0 then PInf else NInf
                | NInf \<Rightarrow> if y > 0 then NInf else PInf
                | NaN \<Rightarrow> NaN))"
| "pf_div NaN b = Inr NaN"
| "pf_div a NaN = Inr NaN"
| "pf_div (Fin x) b = Inr (Fin 0)"
| "pf_div a b = Inr NaN"

text \<open>
  \<^verbatim>\<open>[v for v in vs if math.isfinite(v)]\<close>: the finite values, in order, as reals.
\<close>

definition finite_values :: "pyfloat list \<Rightarrow> real list" where
  "finite_values vs = List.map_filter (\<lambda>v. case v of Fin x \<Rightarrow> Some x | _ \<Rightarrow> None) vs"

text \<open>
  One entry of the dictionary that \<^verbatim>\<open>parse_portfolio_windows\<close> builds: the points are
  pairs of an integer timestamp and a float. A missing key reads as the empty list.
\<close>

record window =
  account_values :: "(int \<times> pyfloat) list"
  pnls :: "(int \<times> pyfloat) list"
  volume :: pyfloat

text \<open>
  The dictionary of the four outputs, over the type \<open>'f\<close> of its floats:
  \<^verbatim>\<open>window_return_metrics\<close> returns a \<open>pyfloat metrics\<close>.
\<close>

record 'f metrics =
  growth_pct :: "'f option"
  pnl_pct :: "'f option"
  vol_pct_daily :: "'f option"
  max_drawdown_pct :: "'f option"

text \<open>
  The scan for the baseline:
  \<^verbatim>\<open>for i, v in enumerate(av_vals): if math.isfinite(v) and v > baseline_eps: ... break\<close>.
\<close>

fun find_base_idx :: "nat \<Rightarrow> pyfloat list \<Rightarrow> real \<Rightarrow> nat option" where
  "find_base_idx i [] baseline_eps = None"
| "find_base_idx i (v # vs) baseline_eps =
     (if isfinite v \<and> pf_gt v baseline_eps then Some i
      else find_base_idx (Suc i) vs baseline_eps)"

text \<open>
  The period returns: \<^verbatim>\<open>for i in range(1, len(av_slice))\<close>, a step being kept only when
  its previous value exceeds the epsilon. The slice holds finite values only.
\<close>

fun rets :: "real list \<Rightarrow> real \<Rightarrow> py_error + real list" where
  "rets (prev # cur # rest) baseline_eps =
     (if prev > baseline_eps then
        (case py_div (cur - prev) prev of
           Inl e \<Rightarrow> Inl e
         | Inr r \<Rightarrow>
             (case rets (cur # rest) baseline_eps of
                Inl e \<Rightarrow> Inl e
              | Inr rs \<Rightarrow> Inr (r # rs)))
      else rets (cur # rest) baseline_eps)"
| "rets av_slice baseline_eps = Inr []"

definition vol_pct_daily_of :: "real list \<Rightarrow> real \<Rightarrow> py_error + real option" where
  "vol_pct_daily_of av_slice baseline_eps =
     (if length av_slice \<ge> 2 then
        (case rets av_slice baseline_eps of
           Inl e \<Rightarrow> Inl e
         | Inr rs \<Rightarrow>
             Inr (case (if length rs \<ge> 2 then stdev rs else None) of
                    Some vol \<Rightarrow> Some (vol * 100)
                  | None \<Rightarrow> None))
      else Inr None)"

definition max_drawdown_pct_of :: "real list \<Rightarrow> py_error + real option" where
  "max_drawdown_pct_of av_slice =
     (case (if length av_slice \<ge> 2 then max_drawdown av_slice else Inr None) of
        Inl e \<Rightarrow> Inl e
      | Inr (Some mdd) \<Rightarrow> Inr (Some (mdd * 100))
      | Inr None \<Rightarrow> Inr None)"

text \<open>
  The PnL percentage against the baseline: the baseline PnL is the first sample at or
  after the baseline time, or the earliest sample when there is none.
\<close>

definition pnl_pct_of ::
    "(int \<times> pyfloat) list \<Rightarrow> int \<Rightarrow> pyfloat \<Rightarrow> py_error + pyfloat option" where
  "pnl_pct_of pnl_points base_ts base_av =
     (if pnl_points \<noteq> [] \<and> length pnl_points \<ge> 2 then
        let pnls_sorted = sort_key fst pnl_points;
            end_pnl = snd (last pnls_sorted);
            base_pnl = (case find (\<lambda>(ts, pv). ts \<ge> base_ts) pnls_sorted of
                          Some (ts, pv) \<Rightarrow> pv
                        | None \<Rightarrow> snd (hd pnls_sorted))
        in (case pf_div (pf_sub end_pnl base_pnl) base_av of
              Inl e \<Rightarrow> Inl e
            | Inr q \<Rightarrow> Inr (Some (pf_mul q (Fin 100))))
      else Inr None)"

text \<open>
  \<^verbatim>\<open>window_return_metrics\<close>. The statements run in the order of the source: volatility,
  drawdown, then growth and PnL; an exception of an earlier one is the result. Volatility
  and drawdown are computed on the finite values of the slice and are finite. The
  argument \<^verbatim>\<open>baseline_eps\<close> is finite (every caller leaves it at its default \<open>1e-9\<close>).
\<close>

definition window_return_metrics :: "window \<Rightarrow> real \<Rightarrow> py_error + pyfloat metrics" where
  "window_return_metrics win baseline_eps =
     (let av = account_values win in
      if av = [] \<or> length av < 2 then
        Inr \<lparr>growth_pct = None, pnl_pct = None, vol_pct_daily = None, max_drawdown_pct = None\<rparr>
      else
        let av_sorted = sort_key fst av;
            av_vals = map snd av_sorted;
            base_idx = find_base_idx 0 av_vals baseline_eps;
            slice_start = (case base_idx of Some i \<Rightarrow> i | None \<Rightarrow> 0);
            av_slice = finite_values (drop slice_start av_vals)
        in
          case vol_pct_daily_of av_slice baseline_eps of
            Inl e \<Rightarrow> Inl e
          | Inr vol \<Rightarrow>
          (case max_drawdown_pct_of av_slice of
            Inl e \<Rightarrow> Inl e
          | Inr mdd \<Rightarrow>
          (case base_idx of
             None \<Rightarrow>
               Inr \<lparr>growth_pct = None, pnl_pct = None, vol_pct_daily = map_option Fin vol,
                    max_drawdown_pct = map_option Fin mdd\<rparr>
           | Some i \<Rightarrow>
               if i + 1 < length av_vals then
                 let base_ts = fst (av_sorted ! i);
                     base_av = snd (av_sorted ! i);
                     end_av = last av_vals
                 in
                   if pf_gt base_av baseline_eps then
                     (case pf_div (pf_sub end_av base_av) base_av of
                        Inl e \<Rightarrow> Inl e
                      | Inr g \<Rightarrow>
                          (case pnl_pct_of (pnls win) base_ts base_av of
                             Inl e \<Rightarrow> Inl e
                           | Inr pp \<Rightarrow>
                               Inr \<lparr>growth_pct = Some (pf_mul g (Fin 100)), pnl_pct = pp,
                                    vol_pct_daily = map_option Fin vol,
                                    max_drawdown_pct = map_option Fin mdd\<rparr>))
                   else
                     Inr \<lparr>growth_pct = None, pnl_pct = None, vol_pct_daily = map_option Fin vol,
                          max_drawdown_pct = map_option Fin mdd\<rparr>
               else
                 Inr \<lparr>growth_pct = None, pnl_pct = None, vol_pct_daily = map_option Fin vol,
                      max_drawdown_pct = map_option Fin mdd\<rparr>)))"

section \<open>Position ages from fills\<close>

text \<open>
  A Python \<^verbatim>\<open>dict\<close> keeps its keys in insertion order; \<^verbatim>\<open>d[k] = v\<close> overwrites the
  value of a key in place and appends a new key. Lookup is \<^const>\<open>map_of\<close>.
\<close>

fun dict_set :: "('k \<times> 'v) list \<Rightarrow> 'k \<Rightarrow> 'v \<Rightarrow> ('k \<times> 'v) list" where
  "dict_set [] k v = [(k, v)]"
| "dict_set ((k', v') # kvs) k v =
     (if k' = k then (k, v) # kvs else (k', v') # dict_set kvs k v)"

text \<open>
  One fill of \<^verbatim>\<open>userFills\<close>, with the keys the function reads. \<open>f_coin\<close> is \<^verbatim>\<open>None\<close>
  when the key \<^verbatim>\<open>coin\<close> is missing or not a string; \<open>f_time\<close> is \<^verbatim>\<open>None\<close> when the key
  \<^verbatim>\<open>time\<close> is missing, and an integer of milliseconds otherwise; \<open>f_startPosition\<close> and
  \<open>f_sz\<close> are the values after \<^verbatim>\<open>to_float(..., 0.0)\<close>.
\<close>

record fill =
  f_coin :: "string option"
  f_time :: "int option"
  f_startPosition :: real
  f_side :: string
  f_sz :: real

text \<open>The constant \<^verbatim>\<open>eps = 1e-10\<close> of \<^verbatim>\<open>infer_position_ages_from_fills\<close>.\<close>

definition age_eps :: real where
  "age_eps = 1 / 10 ^ 10"

text \<open>The sort key \<^verbatim>\<open>int(x.get("time", 0))\<close>.\<close>

definition time_key :: "fill \<Rightarrow> int" where
  "time_key f = (case f_time f of None \<Rightarrow> 0 | Some t_ms \<Rightarrow> t_ms)"

text \<open>
  \<^verbatim>\<open>datetime.fromtimestamp(s, tz=timezone.utc)\<close>. A time is a real number of seconds
  since the epoch. The call raises when the time falls outside the years 1 to 9999 that
  a \<^verbatim>\<open>datetime\<close> holds (\<^verbatim>\<open>ValueError\<close>, or \<^verbatim>\<open>OverflowError\<close> for a time beyond the
  platform's range; both are \<open>ValueError\<close> here).
\<close>

definition fromtimestamp :: "real \<Rightarrow> py_error + real" where
  "fromtimestamp s =
     (if - 62135596800 \<le> s \<and> s < 253402300800 then Inr s else Inl ValueError)"

definition end_pos :: "fill \<Rightarrow> real" where
  "end_pos f = f_startPosition f + (if f_side f = ''B'' then f_sz f else - f_sz f)"

text \<open>
  The three tests of the loop body:
  \<^verbatim>\<open>abs(start_pos) < eps and abs(end_pos) > eps\<close>, \<^verbatim>\<open>abs(end_pos) < eps\<close> and
  \<^verbatim>\<open>start_pos * end_pos < 0\<close>.
\<close>

definition opens :: "fill \<Rightarrow> bool" where
  "opens f \<longleftrightarrow> \<bar>f_startPosition f\<bar> < age_eps \<and> \<bar>end_pos f\<bar> > age_eps"

definition closes :: "fill \<Rightarrow> bool" where
  "closes f \<longleftrightarrow> \<bar>end_pos f\<bar> < age_eps"

definition flips :: "fill \<Rightarrow> bool" where
  "flips f \<longleftrightarrow> f_startPosition f * end_pos f < 0"

text \<open>
  The body of the loop over the sorted fills of one coin: a fill without a time is
  skipped; the conversion of the time may raise; the three tests run in this order.
\<close>

definition track_fill :: "fill \<Rightarrow> real option \<Rightarrow> py_error + real option" where
  "track_fill f open_time =
     (case f_time f of
        None \<Rightarrow> Inr open_time
      | Some t_ms \<Rightarrow>
          (case fromtimestamp (real_of_int t_ms / 1000) of
             Inl e \<Rightarrow> Inl e
           | Inr ts \<Rightarrow>
               let o1 = (if opens f then Some ts else open_time);
                   o2 = (if closes f then None else o1)
               in Inr (if flips f then Some ts else o2)))"

text \<open>The loop \<^verbatim>\<open>for f in fs_sorted\<close>, which stops at the first exception.\<close>

fun replay_fills :: "fill list \<Rightarrow> real option \<Rightarrow> py_error + real option" where
  "replay_fills [] open_time = Inr open_time"
| "replay_fills (f # fs) open_time =
     (case track_fill f open_time of
        Inl e \<Rightarrow> Inl e
      | Inr open_time' \<Rightarrow> replay_fills fs open_time')"

text \<open>
  What the loop over \<^verbatim>\<open>by_coin.items()\<close> computes for one coin: an exception, or
  \<^verbatim>\<open>None\<close> when the loop \<^verbatim>\<open>continue\<close>s or finds no time, or the age in days. The fills
  are replayed before the current size is looked at.
\<close>

definition coin_age :: "real \<Rightarrow> real \<Rightarrow> fill list \<Rightarrow> py_error + real option" where
  "coin_age now cur_size fs =
     (let fs_sorted = sort_key time_key fs in
      case replay_fills fs_sorted None of
        Inl e \<Rightarrow> Inl e
      | Inr open_time \<Rightarrow>
          if \<bar>cur_size\<bar> < age_eps then Inr None
          else
            (case (if open_time = None \<and> fs_sorted \<noteq> [] then
                     (case f_time (hd fs_sorted) of
                        Some t_ms \<Rightarrow>
                          (case fromtimestamp (real_of_int t_ms / 1000) of
                             Inl e \<Rightarrow> Inl e
                           | Inr ts \<Rightarrow> Inr (Some ts))
                      | None \<Rightarrow> Inr None)
                   else Inr open_time) of
               Inl e \<Rightarrow> Inl e
             | Inr (Some ot) \<Rightarrow> Inr (Some ((now - ot) / 86400))
             | Inr None \<Rightarrow> Inr None))"

text \<open>\<^verbatim>\<open>by_coin.setdefault(coin, []).append(f)\<close>.\<close>

fun by_coin_add :: "(string \<times> fill list) list \<Rightarrow> string \<Rightarrow> fill \<Rightarrow> (string \<times> fill list) list" where
  "by_coin_add [] c f = [(c, [f])]"
| "by_coin_add ((k, fs) # rest) c f =
     (if k = c then (k, fs @ [f]) # rest else (k, fs) # by_coin_add rest c f)"

text \<open>
  The loop \<^verbatim>\<open>for coin, fs in by_coin.items()\<close> that fills \<^verbatim>\<open>ages\<close>, with
  \<^verbatim>\<open>cur_by_coin.get(coin, 0.0)\<close> for the current size.
\<close>

fun ages_loop ::
    "real \<Rightarrow> (string \<times> real) list \<Rightarrow> (string \<times> fill list) list \<Rightarrow> (string \<times> real) list
      \<Rightarrow> py_error + (string \<times> real) list" where
  "ages_loop now cur_by_coin [] ages = Inr ages"
| "ages_loop now cur_by_coin ((c, fs) # rest) ages =
     (case coin_age now (case map_of cur_by_coin c of Some s \<Rightarrow> s | None \<Rightarrow> 0) fs of
        Inl e \<Rightarrow> Inl e
      | Inr (Some a) \<Rightarrow> ages_loop now cur_by_coin rest (dict_set ages c a)
      | Inr None \<Rightarrow> ages_loop now cur_by_coin rest ages)"

text \<open>
  \<^verbatim>\<open>infer_position_ages_from_fills\<close>, with the clock reading \<^verbatim>\<open>utcnow()\<close> as the
  argument \<open>now\<close> (seconds since the epoch).
\<close>

definition infer_position_ages_from_fills ::
    "real \<Rightarrow> fill list \<Rightarrow> PositionView list \<Rightarrow> py_error + (string \<times> real) list" where
  "infer_position_ages_from_fills now fills positions =
     (let needed = set (map coin positions);
          cur_by_coin = fold (\<lambda>p d. dict_set d (coin p) (pos_size p)) positions [];
          by_coin = fold (\<lambda>f d. case f_coin f of
                                   Some c \<Rightarrow> if c \<in> needed then by_coin_add d c f else d
                                 | None \<Rightarrow> d) fills []
      in ages_loop now cur_by_coin by_coin [])"

section \<open>Rank scores and ranks\<close>









section \<open>Adaptive batch fetcher\<close>

text \<open>
  \<^verbatim>\<open>chunks(lst, n)\<close> is \<^verbatim>\<open>for i in range(0, len(lst), n): yield lst[i : i + n]\<close>:
  \<^verbatim>\<open>range\<close> raises \<^verbatim>\<open>ValueError\<close> on the step 0 and is empty on a negative step.
\<close>

function chunks_step :: "nat \<Rightarrow> 'a list \<Rightarrow> 'a list list" where
  "chunks_step n lst = (if n = 0 \<or> lst = [] then [] else take n lst # chunks_step n (drop n lst))"
  by pat_completeness auto
termination
  by (relation "measure (\<lambda>(n, lst). length lst)") auto

declare chunks_step.simps [simp del]

definition chunks :: "'a list \<Rightarrow> int \<Rightarrow> py_error + 'a list list" where
  "chunks lst n =
     (if n = 0 then Inl ValueError
      else if n < 0 then Inr []
      else Inr (chunks_step (nat n) lst))"

text \<open>\<^verbatim>\<open>dedupe_keep_order\<close>, with its set \<^verbatim>\<open>seen\<close> and its list \<^verbatim>\<open>out\<close>.\<close>

fun dedupe_loop :: "'a list \<Rightarrow> 'a set \<Rightarrow> 'a list \<Rightarrow> 'a list" where
  "dedupe_loop [] seen out = out"
| "dedupe_loop (x # items) seen out =
     (if x \<notin> seen then dedupe_loop items (insert x seen) (out @ [x])
      else dedupe_loop items seen out)"

definition dedupe_keep_order :: "'a list \<Rightarrow> 'a list" where
  "dedupe_keep_order items = dedupe_loop items {} []"

text \<open>
  The two requests of the fetcher. What \<^verbatim>\<open>_post_json\<close> returns for a request depends on
  the network and on the state of the client; it is a parameter \<open>post\<close>, a function of a
  world state \<open>'w\<close> that returns the parsed response (\<open>JNull\<close> for \<^verbatim>\<open>None\<close>) and the next
  world state.
\<close>

datatype payload = BatchClearinghouseStates "string list" | ClearinghouseState string

definition is_dict :: "json \<Rightarrow> bool" where
  "is_dict j = (case j of JDict kvs \<Rightarrow> True | _ \<Rightarrow> False)"

text \<open>\<^verbatim>\<open>if st:\<close> on a value that is a \<^verbatim>\<open>dict\<close> or \<^verbatim>\<open>None\<close>: a non-empty dictionary.\<close>

definition truthy_dict :: "json \<Rightarrow> bool" where
  "truthy_dict j = (case j of JDict kvs \<Rightarrow> kvs \<noteq> [] | _ \<Rightarrow> False)"

definition clearinghouse_state :: "('w \<Rightarrow> payload \<Rightarrow> json \<times> 'w) \<Rightarrow> 'w \<Rightarrow> string \<Rightarrow> json \<times> 'w" where
  "clearinghouse_state post w user =
     (case post w (ClearinghouseState user) of
        (data, w') \<Rightarrow> (if is_dict data then data else JNull, w'))"

text \<open>\<^verbatim>\<open>isinstance(resp, list) and len(resp) == len(part)\<close>.\<close>

definition list_of_length :: "json \<Rightarrow> nat \<Rightarrow> bool" where
  "list_of_length resp n = (case resp of JList rs \<Rightarrow> length rs = n | _ \<Rightarrow> False)"

definition json_items :: "json \<Rightarrow> json list" where
  "json_items resp = (case resp of JList rs \<Rightarrow> rs | _ \<Rightarrow> [])"

text \<open>The loop \<^verbatim>\<open>for addr, st in zip(part, resp)\<close>.\<close>

fun pair_results ::
    "string list \<Rightarrow> json list \<Rightarrow> (string \<times> json) list \<Rightarrow> string list
      \<Rightarrow> (string \<times> json) list \<times> string list" where
  "pair_results (addr # part) (st # resp) states failed =
     (if is_dict st then pair_results part resp (dict_set states addr st) failed
      else pair_results part resp states (failed @ [addr]))"
| "pair_results part resp states failed = (states, failed)"

text \<open>The per-user fallback: \<^verbatim>\<open>for addr in part: st = self.clearinghouse_state(addr)\<close>.\<close>

fun per_user ::
    "('w \<Rightarrow> payload \<Rightarrow> json \<times> 'w) \<Rightarrow> 'w \<Rightarrow> string list \<Rightarrow> (string \<times> json) list \<Rightarrow> string list
      \<Rightarrow> ((string \<times> json) list \<times> string list) \<times> 'w" where
  "per_user post w [] states failed = ((states, failed), w)"
| "per_user post w (addr # part) states failed =
     (case clearinghouse_state post w addr of
        (st, w') \<Rightarrow>
          if truthy_dict st then per_user post w' part (dict_set states addr st) failed
          else per_user post w' part states (failed @ [addr]))"

text \<open>\<^verbatim>\<open>states.update(sub_states)\<close>.\<close>

definition dict_update :: "('k \<times> 'v) list \<Rightarrow> ('k \<times> 'v) list \<Rightarrow> ('k \<times> 'v) list" where
  "dict_update d other = fold (\<lambda>(k, v) acc. dict_set acc k v) other d"

text \<open>
  \<^verbatim>\<open>batch_clearinghouse_states_adaptive\<close>, and \<open>batch_parts\<close> for its loop over
  \<^verbatim>\<open>parts\<close>, which carries \<^verbatim>\<open>states\<close> and \<^verbatim>\<open>failed\<close>. The argument \<^verbatim>\<open>progress\<close> only
  prints and is left out.
\<close>

function batch_clearinghouse_states_adaptive ::
    "('w \<Rightarrow> payload \<Rightarrow> json \<times> 'w) \<Rightarrow> 'w \<Rightarrow> string list \<Rightarrow> int \<Rightarrow> int \<Rightarrow> bool
      \<Rightarrow> py_error + (((string \<times> json) list \<times> string list) \<times> 'w)"
  and batch_parts ::
    "('w \<Rightarrow> payload \<Rightarrow> json \<times> 'w) \<Rightarrow> 'w \<Rightarrow> string list list \<Rightarrow> int \<Rightarrow> bool
      \<Rightarrow> (string \<times> json) list \<Rightarrow> string list
      \<Rightarrow> py_error + (((string \<times> json) list \<times> string list) \<times> 'w)" where
  "batch_clearinghouse_states_adaptive post w users batch_size min_batch_size fallback_per_user =
     (case chunks users batch_size of
        Inl e \<Rightarrow> Inl e
      | Inr parts \<Rightarrow>
          (case batch_parts post w parts min_batch_size fallback_per_user [] [] of
             Inl e \<Rightarrow> Inl e
           | Inr ((states, failed), w') \<Rightarrow>
               Inr ((states, filter (\<lambda>a. a \<notin> fst ` set states) (dedupe_keep_order failed)), w')))"
| "batch_parts post w [] min_batch_size fallback_per_user states failed = Inr ((states, failed), w)"
| "batch_parts post w (part # parts) min_batch_size fallback_per_user states failed =
     (case post w (BatchClearinghouseStates part) of
        (resp, w1) \<Rightarrow>
          if list_of_length resp (length part) then
            (case pair_results part (json_items resp) states failed of
               (states', failed') \<Rightarrow>
                 batch_parts post w1 parts min_batch_size fallback_per_user states' failed')
          else if int (length part) > min_batch_size then
            (let mid = length part div 2;
                 left = take mid part;
                 right = drop mid part
             in case batch_clearinghouse_states_adaptive post w1 left
                       (max min_batch_size (int (length left))) min_batch_size fallback_per_user of
                  Inl e \<Rightarrow> Inl e
                | Inr ((sub_states, sub_failed), w2) \<Rightarrow>
                    (case batch_clearinghouse_states_adaptive post w2 right
                            (max min_batch_size (int (length right))) min_batch_size
                            fallback_per_user of
                       Inl e \<Rightarrow> Inl e
                     | Inr ((sub_states', sub_failed'), w3) \<Rightarrow>
                         batch_parts post w3 parts min_batch_size fallback_per_user
                           (dict_update (dict_update states sub_states) sub_states')
                           ((failed @ sub_failed) @ sub_failed')))
          else if fallback_per_user then
            (case per_user post w1 part states failed of
               ((states', failed'), w2) \<Rightarrow>
                 batch_parts post w2 parts min_batch_size fallback_per_user states' failed')
          else batch_parts post w1 parts min_batch_size fallback_per_user states (failed @ part))"
  by pat_completeness auto

text \<open>
  Termination. A call on \<open>users\<close> weighs \<open>2 * len(users) + 1\<close>; the loop weighs twice
  the longest part it still has to visit. The halves of a part of two or more are shorter
  than the part. A part of one element is split only when \<open>min_batch_size \<le> 0\<close>, and
  then the call on its empty left half raises (step 0), so the call on its right half,
  which is the part itself, is never made.
\<close>

definition parts_bound :: "'a list list \<Rightarrow> nat" where
  "parts_bound parts = foldr max (map (\<lambda>p. if p = [] then 2 else 2 * length p) parts) 0"

lemma chunks_step_parts:
  "p \<in> set (chunks_step n lst) \<Longrightarrow> p \<noteq> [] \<and> length p \<le> length lst"
proof (induction n lst rule: chunks_step.induct)
  case (1 n lst)
  show ?case
  proof (cases "n = 0 \<or> lst = []")
    case True
    with "1.prems" show ?thesis by (subst (asm) chunks_step.simps) simp
  next
    case False
    with "1.prems" have "p = take n lst \<or> p \<in> set (chunks_step n (drop n lst))"
      by (subst (asm) chunks_step.simps) simp
    then show ?thesis
    proof
      assume "p = take n lst"
      with False show ?thesis by simp
    next
      assume "p \<in> set (chunks_step n (drop n lst))"
      with "1.IH" False have "p \<noteq> [] \<and> length p \<le> length (drop n lst)" by blast
      then show ?thesis by auto
    qed
  qed
qed

lemma parts_bound_le:
  "(\<And>p. p \<in> set parts \<Longrightarrow> p \<noteq> [] \<and> length p \<le> n) \<Longrightarrow> parts_bound parts \<le> 2 * n"
  by (induction parts) (auto simp: parts_bound_def)

lemma parts_bound_Cons:
  "parts_bound (part # parts) = max (if part = [] then 2 else 2 * length part) (parts_bound parts)"
  by (simp add: parts_bound_def)


lemma left_half_bound:
  "2 * length (take (length part div 2) part) + 1 < max (if part = [] then 2 else 2 * length part) b"
proof (cases "part = []")
  case True
  then show ?thesis by simp
next
  case False
  then have "0 < length part" by simp
  then have "2 * (length part div 2) + 1 < 2 * length part" by arith
  moreover have "length (take (length part div 2) part) = length part div 2" by simp
  ultimately show ?thesis using False by (simp add: max_def)
qed

lemma right_half_bound:
  assumes "length part \<noteq> 1"
  shows "2 * length (drop (length part div 2) part) + 1
         < max (if part = [] then 2 else 2 * length part) b"
proof (cases "part = []")
  case True
  then show ?thesis by simp
next
  case False
  then have "1 < length part" using assms by (cases part) auto
  then have "2 * (length part - length part div 2) + 1 < 2 * length part" by arith
  then show ?thesis using False by (simp add: max_def)
qed

lemma chunks_bound:
  assumes "chunks users batch_size = Inr parts"
  shows "parts_bound parts \<le> 2 * length users"
proof (rule parts_bound_le)
  fix p assume "p \<in> set parts"
  then have "p \<in> set (chunks_step (nat batch_size) users)"
    using assms by (auto simp: chunks_def split: if_splits)
  then show "p \<noteq> [] \<and> length p \<le> length users" by (rule chunks_step_parts)
qed

lemma empty_step_zero_raises:
  assumes "batch_clearinghouse_states_adaptive_batch_parts_dom (Inl (post, w, [], 0, m, fb))"
  shows "batch_clearinghouse_states_adaptive post w [] 0 m fb = Inl ValueError"
  by (subst batch_clearinghouse_states_adaptive.psimps [OF assms]) (simp add: chunks_def)

termination batch_clearinghouse_states_adaptive
proof (relation "inv_image (less_than <*lex*> less_than)
     (\<lambda>x. case x of
        Inl (post, w, users, batch_size, min_batch_size, fb) \<Rightarrow> (2 * length users + 1, 0)
      | Inr (post, w, parts, min_batch_size, fb, states, failed) \<Rightarrow>
          (parts_bound parts, length parts))", goal_cases)
  case 1
  show ?case by (intro wf_inv_image wf_lex_prod wf_less_than)
next
  case (2 post w users batch_size min_batch_size fallback_per_user b)
  then show ?case using chunks_bound [of users batch_size b] by simp
next
  case 3
  show ?case by (simp add: parts_bound_Cons max_def)
next
  case (4 post w part parts min_batch_size fallback_per_user states failed x y xa xb xc)
  then show ?case
    using left_half_bound [of part "parts_bound parts"] by (simp add: parts_bound_Cons)
next
  case (5 post w part parts min_batch_size fallback_per_user states failed x y xa xb xc b xd ya xe yb)
  show ?case
  proof (cases "length part = 1")
    case True
    then have "xb = []" using 5 by simp
    moreover have "max min_batch_size (int (length xb)) = 0"
      using True 5 \<open>xb = []\<close> by simp
    ultimately have "batch_clearinghouse_states_adaptive post y xb
        (max min_batch_size (int (length xb))) min_batch_size fallback_per_user = Inl ValueError"
      using empty_step_zero_raises [of post y min_batch_size fallback_per_user] 5 by simp
    with 5 show ?thesis by simp
  next
    case False
    then show ?thesis
      using 5 right_half_bound [of part "parts_bound parts"] by (simp add: parts_bound_Cons)
  qed
next
  case 6
  show ?case by (simp add: parts_bound_Cons max_def)
next
  case 7
  show ?case by (simp add: parts_bound_Cons max_def)
next
  case 8
  show ?case by (simp add: parts_bound_Cons max_def)
qed

declare batch_clearinghouse_states_adaptive.simps [simp del]
declare batch_parts.simps [simp del]

section \<open>Properties of \<open>max_drawdown\<close>\<close>

lemma max_drawdown_loop_total:
  "\<exists>m. max_drawdown_loop vs peak mdd = Inr m \<and> mdd \<le> m"
proof (induction vs arbitrary: peak mdd)
  case Nil
  show ?case by simp
next
  case (Cons v vs)
  define peak' where "peak' = (if v > peak then v else peak)"
  define dd where "dd = (if peak' \<noteq> 0 then (peak' - v) / peak' else 0)"
  have step: "max_drawdown_loop (v # vs) peak mdd = max_drawdown_loop vs peak' (max mdd dd)"
    by (simp add: peak'_def dd_def py_div_def Let_def)
  from Cons.IH [of peak' "max mdd dd"]
  obtain m where "max_drawdown_loop vs peak' (max mdd dd) = Inr m" and "max mdd dd \<le> m"
    by blast
  with step show ?case by auto
qed

lemma max_drawdown_loop_le_one:
  assumes "\<forall>v \<in> set vs. 0 \<le> v" and "0 \<le> peak" and "mdd \<le> 1"
    and "max_drawdown_loop vs peak mdd = Inr m"
  shows "m \<le> 1"
  using assms
proof (induction vs arbitrary: peak mdd)
  case Nil
  then show ?case by simp
next
  case (Cons v vs)
  define peak' where "peak' = (if v > peak then v else peak)"
  define dd where "dd = (if peak' \<noteq> 0 then (peak' - v) / peak' else 0)"
  have step: "max_drawdown_loop (v # vs) peak mdd = max_drawdown_loop vs peak' (max mdd dd)"
    by (simp add: peak'_def dd_def py_div_def Let_def)
  have v0: "0 \<le> v" using Cons.prems(1) by simp
  have p0: "0 \<le> peak'" and pv: "v \<le> peak'"
    using Cons.prems(2) v0 by (auto simp: peak'_def)
  have "dd \<le> 1"
  proof (cases "peak' = 0")
    case True
    then show ?thesis by (simp add: dd_def)
  next
    case False
    with p0 have "0 < peak'" by simp
    moreover have "peak' - v \<le> peak'" using v0 by simp
    ultimately show ?thesis using False by (simp add: dd_def)
  qed
  with Cons.prems(3) have "max mdd dd \<le> 1" by simp
  moreover have "\<forall>v \<in> set vs. 0 \<le> v" using Cons.prems(1) by simp
  moreover have "max_drawdown_loop vs peak' (max mdd dd) = Inr m"
    using Cons.prems(4) step by simp
  ultimately show ?case using Cons.IH [of peak' "max mdd dd"] p0 by blast
qed

text \<open>
  C10. \<^verbatim>\<open>max_drawdown\<close> never raises: on fewer than two elements it returns
  \<^verbatim>\<open>None\<close>; otherwise it returns a value that is at least zero, and the division by
  the running peak is never a division by zero. On a series of non-negative values
  the result is at most one.
\<close>

theorem max_drawdown_total_bounded:
  "(length series < 2 \<longrightarrow> max_drawdown series = Inr None) \<and>
   (2 \<le> length series \<longrightarrow>
      (\<exists>m. max_drawdown series = Inr (Some m) \<and> 0 \<le> m \<and>
           ((\<forall>v \<in> set series. 0 \<le> v) \<longrightarrow> m \<le> 1)))"
proof (intro conjI impI)
  assume "length series < 2"
  then show "max_drawdown series = Inr None" by (simp add: max_drawdown_def)
next
  assume len: "2 \<le> length series"
  obtain m where m: "max_drawdown_loop series (hd series) 0 = Inr m" and m0: "0 \<le> m"
    using max_drawdown_loop_total [of series "hd series" 0] by blast
  have res: "max_drawdown series = Inr (Some m)"
    using len m by (simp add: max_drawdown_def)
  have "m \<le> 1" if nonneg: "\<forall>v \<in> set series. 0 \<le> v"
  proof -
    from len have "series \<noteq> []" by auto
    then have "hd series \<in> set series" by simp
    with nonneg have "0 \<le> hd series" by blast
    with nonneg m show ?thesis
      using max_drawdown_loop_le_one [of series "hd series" 0 m] by simp
  qed
  with res m0 show "\<exists>m. max_drawdown series = Inr (Some m) \<and> 0 \<le> m \<and>
           ((\<forall>v \<in> set series. 0 \<le> v) \<longrightarrow> m \<le> 1)"
    by blast
qed

theorem max_drawdown_total_bounded_witness:
  "2 \<le> length [100, 50, 120 :: real] \<and> list_all (\<lambda>v. 0 \<le> v) [100, 50, 120 :: real] \<and>
   max_drawdown [100, 50, 120] = Inr (Some (1 / 2)) \<and>
   (\<exists>m. max_drawdown [100, 50, 120] = Inr (Some m) \<and> 0 \<le> m \<and> m \<le> 1)"
  using max_drawdown_total_bounded [of "[100, 50, 120]"]
  by (simp add: max_drawdown_def py_div_def)

section \<open>Properties of the rate limiter\<close>

lemma note_error_bounds:
  assumes "0 \<le> min_interval_s l" and "min_interval_s l \<le> max_interval_s l"
  shows "0 \<le> cooldown (note_error l) \<and> cooldown (note_error l) \<le> max_interval_s l"
  using assms by (simp add: note_error_def min_def max_def)

lemma note_ok_bounds:
  assumes "0 \<le> cooldown l" and "cooldown l \<le> max_interval_s l"
  shows "0 \<le> cooldown (note_ok l) \<and> cooldown (note_ok l) \<le> max_interval_s l"
  using assms by (simp add: note_ok_def max_def)

lemma limiter_step_intervals:
  "min_interval_s (limiter_step c l) = min_interval_s l \<and>
   max_interval_s (limiter_step c l) = max_interval_s l"
  by (cases c) (simp_all add: note_error_def note_ok_def)

lemma limiter_step_bounds:
  assumes "0 \<le> min_interval_s l" and "min_interval_s l \<le> max_interval_s l"
    and "0 \<le> cooldown l" and "cooldown l \<le> max_interval_s l"
  shows "0 \<le> cooldown (limiter_step c l) \<and> cooldown (limiter_step c l) \<le> max_interval_s l"
proof (cases c)
  case CallNoteError
  then show ?thesis using note_error_bounds [OF assms(1,2)] by simp
next
  case CallNoteOk
  then show ?thesis using note_ok_bounds [OF assms(3,4)] by simp
qed

lemma run_calls_bounds:
  assumes "0 \<le> min_interval_s l" and "min_interval_s l \<le> max_interval_s l"
    and "0 \<le> cooldown l" and "cooldown l \<le> max_interval_s l"
  shows "min_interval_s (run_calls cs l) = min_interval_s l \<and>
         max_interval_s (run_calls cs l) = max_interval_s l \<and>
         0 \<le> cooldown (run_calls cs l) \<and> cooldown (run_calls cs l) \<le> max_interval_s l"
  using assms
proof (induction cs arbitrary: l)
  case Nil
  then show ?case by (simp add: run_calls_def)
next
  case (Cons c cs)
  have eq: "run_calls (c # cs) l = run_calls cs (limiter_step c l)"
    by (simp add: run_calls_def)
  have iv: "min_interval_s (limiter_step c l) = min_interval_s l"
    "max_interval_s (limiter_step c l) = max_interval_s l"
    using limiter_step_intervals [of c l] by simp_all
  have bd: "0 \<le> cooldown (limiter_step c l)" "cooldown (limiter_step c l) \<le> max_interval_s l"
    using limiter_step_bounds [OF Cons.prems, of c] by simp_all
  show ?case
    using Cons.IH [of "limiter_step c l"] Cons.prems(1,2) iv bd eq by simp
qed

text \<open>
  C8. Starting from cooldown \<open>0\<close> with \<open>0 \<le> min_interval \<le> max_interval\<close>, every
  sequence of \<^verbatim>\<open>note_error()\<close> and \<^verbatim>\<open>note_ok()\<close> calls leaves the cooldown in
  \<open>[0, max_interval]\<close>; from the state reached, \<^verbatim>\<open>note_error\<close> sets the cooldown to
  \<open>min(max_interval, max(cooldown * 1.6, min_interval))\<close> and \<^verbatim>\<open>note_ok\<close> sets it to
  \<open>max(0, cooldown * 0.85 - 0.01)\<close>.
\<close>

theorem rate_limiter_cooldown_invariant:
  assumes "0 \<le> mn" and "mn \<le> mx"
  shows "0 \<le> cooldown (run_calls cs (RateLimiter_init mn mx)) \<and>
         cooldown (run_calls cs (RateLimiter_init mn mx)) \<le> mx \<and>
         cooldown (note_error (run_calls cs (RateLimiter_init mn mx))) =
           min mx (max (cooldown (run_calls cs (RateLimiter_init mn mx)) * 1.6) mn) \<and>
         cooldown (note_ok (run_calls cs (RateLimiter_init mn mx))) =
           max 0 (cooldown (run_calls cs (RateLimiter_init mn mx)) * 0.85 - 0.01)"
proof -
  let ?l = "RateLimiter_init mn mx"
  have init: "min_interval_s ?l = mn" "max_interval_s ?l = mx" "cooldown ?l = 0"
    by (simp_all add: RateLimiter_init_def)
  have "0 \<le> min_interval_s ?l" "min_interval_s ?l \<le> max_interval_s ?l"
    "0 \<le> cooldown ?l" "cooldown ?l \<le> max_interval_s ?l"
    using assms init by simp_all
  from run_calls_bounds [OF this, of cs] init
  have "min_interval_s (run_calls cs ?l) = mn" "max_interval_s (run_calls cs ?l) = mx"
    "0 \<le> cooldown (run_calls cs ?l)" "cooldown (run_calls cs ?l) \<le> mx"
    by simp_all
  then show ?thesis by (simp add: note_error_def note_ok_def)
qed

theorem rate_limiter_cooldown_invariant_witness:
  "(0::real) \<le> 0.15 \<and> (0.15::real) \<le> 1 \<and>
   cooldown (run_calls [CallNoteError, CallNoteError, CallNoteOk] (RateLimiter_init 0.15 1))
     = 0.194 \<and>
   0 \<le> cooldown (run_calls [CallNoteError, CallNoteError, CallNoteOk] (RateLimiter_init 0.15 1)) \<and>
   cooldown (run_calls [CallNoteError, CallNoteError, CallNoteOk] (RateLimiter_init 0.15 1)) \<le> 1"
  using rate_limiter_cooldown_invariant [of "0.15" 1 "[CallNoteError, CallNoteError, CallNoteOk]"]
  by (simp add: run_calls_def RateLimiter_init_def note_error_def note_ok_def)

section \<open>Properties of the transport\<close>

lemma handle_reply_fatal:
  assumes "status_code \<noteq> 200" and "status_code \<notin> {429, 500, 502, 503, 504}"
  shows "handle_reply cfg attempt (Reply status_code body) c = (Return JNull, client_note_ok c)"
  using assms by (simp add: handle_reply_def)

lemma handle_reply_retryable:
  assumes "status_code \<in> {429, 500, 502, 503, 504}"
  shows "handle_reply cfg attempt (Reply status_code body) c =
         retry_or_fail cfg attempt (client_note_error c)"
  using assms by (auto simp add: handle_reply_def)

text \<open>
  The two classes of status codes other than 200, as \<^verbatim>\<open>_post_json\<close> tests them. An
  attempt whose status is 429, 500, 502, 503 or 504 is retryable: \<^verbatim>\<open>note_error()\<close> is
  called, and the loop sleeps and goes on when an attempt is left, and returns failure
  otherwise. An attempt with any other status but 200 is fatal: \<^verbatim>\<open>note_ok()\<close> is
  called and \<^verbatim>\<open>_post_json\<close> returns failure at once, with no sleep and no further
  attempt.
\<close>

theorem post_json_status_classes:
  "(status_code \<in> {429, 500, 502, 503, 504} \<longrightarrow>
      handle_reply cfg attempt (Reply status_code body) c =
        (if int attempt < retries cfg
         then (Continue, sleep_backoff attempt (client_note_error c))
         else (Return JNull, client_note_error c))) \<and>
   (status_code \<noteq> 200 \<and> status_code \<notin> {429, 500, 502, 503, 504} \<longrightarrow>
      handle_reply cfg attempt (Reply status_code body) c = (Return JNull, client_note_ok c) \<and>
      (int attempt \<le> retries cfg \<and> net attempt = Reply status_code body \<longrightarrow>
         post_json_from net cfg attempt c = (JNull, client_note_ok (client_wait c))))"
proof (intro conjI impI)
  assume "status_code \<in> {429, 500, 502, 503, 504}"
  then show "handle_reply cfg attempt (Reply status_code body) c =
        (if int attempt < retries cfg
         then (Continue, sleep_backoff attempt (client_note_error c))
         else (Return JNull, client_note_error c))"
    by (simp only: handle_reply_retryable retry_or_fail_def)
next
  assume fatal: "status_code \<noteq> 200 \<and> status_code \<notin> {429, 500, 502, 503, 504}"
  then show "handle_reply cfg attempt (Reply status_code body) c = (Return JNull, client_note_ok c)"
    using handle_reply_fatal by blast
next
  assume fatal: "status_code \<noteq> 200 \<and> status_code \<notin> {429, 500, 502, 503, 504}"
    and at: "int attempt \<le> retries cfg \<and> net attempt = Reply status_code body"
  have "handle_reply cfg attempt (net attempt) (client_wait c) =
        (Return JNull, client_note_ok (client_wait c))"
    using fatal at handle_reply_fatal [of status_code cfg attempt body "client_wait c"] by simp
  moreover have "int attempt < retries cfg + 1" using at by simp
  ultimately show "post_json_from net cfg attempt c = (JNull, client_note_ok (client_wait c))"
    by simp
qed

theorem post_json_status_classes_witness:
  "post_json_from (\<lambda>k. if k = 0 then Reply 503 None else Reply 404 None)
     \<lparr>retries = 4, timeout_s = 20, backoff_base_s = 0.8, backoff_cap_s = 10, jitter_s = 0.25\<rparr>
     0 \<lparr>limiter = RateLimiter_init 0.15 1, events = []\<rparr>
   = (JNull,
      \<lparr>limiter = note_ok (note_error (RateLimiter_init 0.15 1)),
       events = [EvWait, EvNoteError, EvSleepBackoff 0, EvWait, EvNoteOk]\<rparr>)"
proof -
  let ?net = "\<lambda>k::nat. if k = 0 then Reply 503 None else Reply 404 None"
  let ?cfg = "\<lparr>retries = 4, timeout_s = 20, backoff_base_s = 0.8, backoff_cap_s = 10,
               jitter_s = 0.25\<rparr>"
  let ?c = "\<lparr>limiter = RateLimiter_init 0.15 1, events = []\<rparr>"
  let ?c1 = "sleep_backoff 0 (client_note_error (client_wait ?c))"
  have first: "handle_reply ?cfg 0 (Reply 503 None) (client_wait ?c) = (Continue, ?c1)"
    using post_json_status_classes [of 503 ?cfg 0 None "client_wait ?c" ?net] by simp
  have second: "post_json_from ?net ?cfg (Suc 0) ?c1 = (JNull, client_note_ok (client_wait ?c1))"
    using post_json_status_classes [of 404 ?cfg "Suc 0" None ?c1 ?net] by simp
  have "post_json_from ?net ?cfg 0 ?c = post_json_from ?net ?cfg (Suc 0) ?c1"
    using first by (subst post_json_from.simps) simp
  with second show ?thesis
    by (simp add: client_note_ok_def client_wait_def sleep_backoff_def client_note_error_def)
qed

text \<open>
  C3. An attempt whose status is 429 or in the range 500 to 599 should be retryable, with
  \<^verbatim>\<open>note_error()\<close> called. At status 501, a status of that range, with all four retries
  left, the code does otherwise: \<^verbatim>\<open>note_ok()\<close> is called, not \<^verbatim>\<open>note_error()\<close>, and
  \<^verbatim>\<open>_post_json\<close> returns failure after the one attempt, without sleeping or retrying.
\<close>

theorem post_json_501_not_retried:
  "handle_reply
     \<lparr>retries = 4, timeout_s = 20, backoff_base_s = 0.8, backoff_cap_s = 10, jitter_s = 0.25\<rparr>
     0 (Reply 501 None) \<lparr>limiter = RateLimiter_init 0.15 1, events = []\<rparr>
   = (Return JNull, \<lparr>limiter = note_ok (RateLimiter_init 0.15 1), events = [EvNoteOk]\<rparr>) \<and>
   post_json (\<lambda>k. Reply 501 None)
     \<lparr>retries = 4, timeout_s = 20, backoff_base_s = 0.8, backoff_cap_s = 10, jitter_s = 0.25\<rparr>
     \<lparr>limiter = RateLimiter_init 0.15 1, events = []\<rparr>
   = (JNull, \<lparr>limiter = note_ok (RateLimiter_init 0.15 1), events = [EvWait, EvNoteOk]\<rparr>)"
  by (simp add: post_json_def handle_reply_def client_note_ok_def client_wait_def)

section \<open>Properties of the risk score\<close>

lemma risk_score_range: "0 \<le> risk_score account_value positions \<and> risk_score account_value positions \<le> 100"
  by (simp add: risk_score_def Let_def)

text \<open>
  C6. For an account with positive equity and at least one position, the risk score does
  not decrease when the total margin used grows, when the maximum leverage grows, or when
  the nearest known liquidation distance shrinks, the other inputs being the same (here:
  moving in the same direction or not at all); and for every input the score is in
  \<open>[0, 100]\<close>.
\<close>

theorem risk_score_monotone_bounded:
  "(0 < account_value \<and> ps \<noteq> [] \<and> ps' \<noteq> [] \<and>
    total_margin ps \<le> total_margin ps' \<and>
    max_lev ps \<le> max_lev ps' \<and>
    ((closest ps = None \<and> closest ps' = None) \<or>
     (\<exists>d d'. closest ps = Some d \<and> closest ps' = Some d' \<and> d' \<le> d))
    \<longrightarrow> risk_score account_value ps \<le> risk_score account_value ps') \<and>
   0 \<le> risk_score av qs \<and> risk_score av qs \<le> 100"
proof (intro conjI impI)
  assume a: "0 < account_value \<and> ps \<noteq> [] \<and> ps' \<noteq> [] \<and>
    total_margin ps \<le> total_margin ps' \<and>
    max_lev ps \<le> max_lev ps' \<and>
    ((closest ps = None \<and> closest ps' = None) \<or>
     (\<exists>d d'. closest ps = Some d \<and> closest ps' = Some d' \<and> d' \<le> d))"
  define liq where "liq = (\<lambda>qs. case closest qs of None \<Rightarrow> (0.25::real) | Some cl \<Rightarrow> 1 - min 1 (cl / 50))"
  define score where "score = (\<lambda>qs. 100 * (0.40 * min 1 (total_margin qs / account_value)
      + 0.30 * min 1 (max_lev qs / 50) + 0.30 * liq qs))"
  have m: "min 1 (total_margin ps / account_value) \<le> min 1 (total_margin ps' / account_value)"
    using a by (intro min.mono order_refl divide_right_mono) auto
  have l: "min 1 (max_lev ps / 50) \<le> min 1 (max_lev ps' / 50)"
    using a by (intro min.mono order_refl divide_right_mono) auto
  have q: "liq ps \<le> liq ps'"
  proof -
    from a consider "closest ps = None \<and> closest ps' = None"
      | d d' where "closest ps = Some d" "closest ps' = Some d'" "d' \<le> d"
      by blast
    then show ?thesis
    proof cases
      case 1
      then show ?thesis by (simp add: liq_def)
    next
      case 2
      have "min 1 (d' / 50) \<le> min 1 (d / 50)"
        using 2(3) by (intro min.mono order_refl divide_right_mono) auto
      with 2 show ?thesis by (simp add: liq_def)
    qed
  qed
  have "score ps \<le> score ps'"
    unfolding score_def using m l q by simp
  then have "max 0 (min 100 (score ps)) \<le> max 0 (min 100 (score ps'))"
    by (intro max.mono min.mono order_refl)
  moreover have "risk_score account_value ps = max 0 (min 100 (score ps))"
    using a by (simp add: risk_score_def Let_def score_def liq_def)
  moreover have "risk_score account_value ps' = max 0 (min 100 (score ps'))"
    using a by (simp add: risk_score_def Let_def score_def liq_def)
  ultimately show "risk_score account_value ps \<le> risk_score account_value ps'"
    by simp
next
  show "0 \<le> risk_score av qs" using risk_score_range by blast
next
  show "risk_score av qs \<le> 100" using risk_score_range by blast
qed

theorem risk_score_monotone_bounded_witness:
  "risk_score 1000
     [\<lparr>coin = ''BTC'', side = ''LONG'', pos_size = 1, entry_px = 100, mid_px = Some 100,
       position_value = 100, unrealized_pnl = 0, roe_pct = None, leverage = 5,
       liquidation_px = Some 80, margin_used = 100, notional_pct_equity = Some 10,
       liq_distance_pct = Some 20, age_days = None\<rparr>] = 25 \<and>
   risk_score 1000
     [\<lparr>coin = ''BTC'', side = ''LONG'', pos_size = 1, entry_px = 100, mid_px = Some 100,
       position_value = 100, unrealized_pnl = 0, roe_pct = None, leverage = 10,
       liquidation_px = Some 90, margin_used = 200, notional_pct_equity = Some 10,
       liq_distance_pct = Some 10, age_days = None\<rparr>] = 38 \<and>
   risk_score 1000
     [\<lparr>coin = ''BTC'', side = ''LONG'', pos_size = 1, entry_px = 100, mid_px = Some 100,
       position_value = 100, unrealized_pnl = 0, roe_pct = None, leverage = 5,
       liquidation_px = Some 80, margin_used = 100, notional_pct_equity = Some 10,
       liq_distance_pct = Some 20, age_days = None\<rparr>]
   \<le> risk_score 1000
     [\<lparr>coin = ''BTC'', side = ''LONG'', pos_size = 1, entry_px = 100, mid_px = Some 100,
       position_value = 100, unrealized_pnl = 0, roe_pct = None, leverage = 10,
       liquidation_px = Some 90, margin_used = 200, notional_pct_equity = Some 10,
       liq_distance_pct = Some 10, age_days = None\<rparr>]"
proof -
  let ?p = "\<lparr>coin = ''BTC'', side = ''LONG'', pos_size = 1, entry_px = 100, mid_px = Some 100,
       position_value = 100, unrealized_pnl = 0, roe_pct = None, leverage = 5,
       liquidation_px = Some 80, margin_used = 100, notional_pct_equity = Some 10,
       liq_distance_pct = Some 20, age_days = None\<rparr>"
  let ?p' = "\<lparr>coin = ''BTC'', side = ''LONG'', pos_size = 1, entry_px = 100, mid_px = Some 100,
       position_value = 100, unrealized_pnl = 0, roe_pct = None, leverage = 10,
       liquidation_px = Some 90, margin_used = 200, notional_pct_equity = Some 10,
       liq_distance_pct = Some 10, age_days = None\<rparr>"
  have agg: "total_margin [?p] = 100" "total_margin [?p'] = 200" "max_lev [?p] = 5"
    "max_lev [?p'] = 10" "closest [?p] = Some 20" "closest [?p'] = Some 10"
    by (simp_all add: total_margin_def max_lev_def closest_def liq_dists_def List.map_filter_simps)
  have le: "risk_score 1000 [?p] \<le> risk_score 1000 [?p']"
    using risk_score_monotone_bounded [of 1000 "[?p]" "[?p']" 0 "[]"] agg by simp
  have v: "risk_score 1000 [?p] = 25" "risk_score 1000 [?p'] = 38"
    by (simp_all add: risk_score_def agg)
  from le v show ?thesis by simp
qed

section \<open>Properties of the window metrics\<close>

lemma find_base_idx_none:
  "\<forall>v \<in> set vs. pf_le v eps \<Longrightarrow> find_base_idx i vs eps = None"
proof (induction vs arbitrary: i)
  case Nil
  show ?case by simp
next
  case (Cons v vs)
  have "pf_le v eps" using Cons.prems by simp
  then have "\<not> (isfinite v \<and> pf_gt v eps)" by (cases v) (simp_all add: isfinite_def)
  then show ?case using Cons by simp
qed

lemma finite_values_le:
  "\<forall>v \<in> set vs. pf_le v eps \<Longrightarrow> \<forall>x \<in> set (finite_values vs). x \<le> eps"
proof (induction vs)
  case Nil
  show ?case by (simp add: finite_values_def List.map_filter_simps)
next
  case (Cons v vs)
  then show ?case
    by (cases v) (auto simp: finite_values_def List.map_filter_simps)
qed

lemma rets_none:
  "\<forall>v \<in> set vs. v \<le> eps \<Longrightarrow> rets vs eps = Inr []"
  by (induction vs eps rule: rets.induct) auto

lemma max_drawdown_some:
  "2 \<le> length vs \<Longrightarrow> \<exists>m. max_drawdown vs = Inr (Some m) \<and> 0 \<le> m"
  using max_drawdown_loop_total [of vs "hd vs" 0] by (auto simp: max_drawdown_def)

text \<open>
  C2, as the code has it. A window whose account-value series has fewer than two points
  gives \<^verbatim>\<open>None\<close> for all four outputs. A window with at least two points whose values
  are all at most the baseline epsilon gives \<^verbatim>\<open>None\<close> for growth, PnL and daily
  volatility, while the drawdown output is 100 times \<^verbatim>\<open>max_drawdown\<close> of the finite
  values of the series in timestamp order: \<^verbatim>\<open>None\<close> when fewer than two values are
  finite, and a number, at least zero, otherwise.
\<close>

theorem window_return_metrics_null_cases:
  "(length (account_values win) < 2 \<longrightarrow>
      window_return_metrics win baseline_eps =
        Inr \<lparr>growth_pct = None, pnl_pct = None, vol_pct_daily = None, max_drawdown_pct = None\<rparr>) \<and>
   (2 \<le> length (account_values win) \<and>
    (\<forall>p \<in> set (account_values win). pf_le (snd p) baseline_eps) \<longrightarrow>
      (\<exists>mdd. max_drawdown (finite_values (map snd (sort_key fst (account_values win)))) = Inr mdd \<and>
         (length (finite_values (map snd (sort_key fst (account_values win)))) < 2 \<longrightarrow>
            mdd = None) \<and>
         (2 \<le> length (finite_values (map snd (sort_key fst (account_values win)))) \<longrightarrow>
            (\<exists>d. mdd = Some d \<and> 0 \<le> d)) \<and>
         window_return_metrics win baseline_eps =
           Inr \<lparr>growth_pct = None, pnl_pct = None, vol_pct_daily = None,
                max_drawdown_pct = map_option (\<lambda>d. Fin (d * 100)) mdd\<rparr>))"
proof (intro conjI impI)
  assume "length (account_values win) < 2"
  then show "window_return_metrics win baseline_eps =
        Inr \<lparr>growth_pct = None, pnl_pct = None, vol_pct_daily = None, max_drawdown_pct = None\<rparr>"
    by (simp add: window_return_metrics_def)
next
  assume a: "2 \<le> length (account_values win) \<and>
    (\<forall>p \<in> set (account_values win). pf_le (snd p) baseline_eps)"
  define vals where "vals = map snd (sort_key fst (account_values win))"
  define fin where "fin = finite_values vals"
  have low: "\<forall>v \<in> set vals. pf_le v baseline_eps" using a by (auto simp: vals_def)
  have base: "find_base_idx 0 vals baseline_eps = None"
    using low by (rule find_base_idx_none)
  have flow: "\<forall>x \<in> set fin. x \<le> baseline_eps"
    unfolding fin_def using low by (rule finite_values_le)
  have vol: "vol_pct_daily_of fin baseline_eps = Inr None"
    using flow by (simp add: vol_pct_daily_of_def rets_none)
  have ne: "account_values win \<noteq> []" using a by auto
  have len: "\<not> length (account_values win) < 2" using a by simp
  show "\<exists>mdd. max_drawdown (finite_values (map snd (sort_key fst (account_values win)))) = Inr mdd \<and>
         (length (finite_values (map snd (sort_key fst (account_values win)))) < 2 \<longrightarrow>
            mdd = None) \<and>
         (2 \<le> length (finite_values (map snd (sort_key fst (account_values win)))) \<longrightarrow>
            (\<exists>d. mdd = Some d \<and> 0 \<le> d)) \<and>
         window_return_metrics win baseline_eps =
           Inr \<lparr>growth_pct = None, pnl_pct = None, vol_pct_daily = None,
                max_drawdown_pct = map_option (\<lambda>d. Fin (d * 100)) mdd\<rparr>"
  proof (cases "2 \<le> length fin")
    case True
    obtain m where m: "max_drawdown fin = Inr (Some m)" "0 \<le> m"
      using max_drawdown_some [OF True] by blast
    have mdd: "max_drawdown_pct_of fin = Inr (Some (m * 100))"
      using True m by (simp add: max_drawdown_pct_of_def)
    have "window_return_metrics win baseline_eps =
        Inr \<lparr>growth_pct = None, pnl_pct = None, vol_pct_daily = None,
             max_drawdown_pct = Some (Fin (m * 100))\<rparr>"
      using ne len base vol mdd
      by (simp add: window_return_metrics_def Let_def vals_def [symmetric] fin_def [symmetric])
    with m True show ?thesis
      unfolding vals_def [symmetric] fin_def [symmetric] by (intro exI [of _ "Some m"]) simp
  next
    case False
    have m: "max_drawdown fin = Inr None" using False by (simp add: max_drawdown_def)
    have mdd: "max_drawdown_pct_of fin = Inr None"
      using False by (simp add: max_drawdown_pct_of_def)
    have "window_return_metrics win baseline_eps =
        Inr \<lparr>growth_pct = None, pnl_pct = None, vol_pct_daily = None, max_drawdown_pct = None\<rparr>"
      using ne len base vol mdd
      by (simp add: window_return_metrics_def Let_def vals_def [symmetric] fin_def [symmetric])
    with m False show ?thesis
      unfolding vals_def [symmetric] fin_def [symmetric] by (intro exI [of _ None]) simp
  qed
qed

theorem window_return_metrics_null_cases_witness:
  "window_return_metrics \<lparr>account_values = [(5, Fin 7)], pnls = [], volume = Fin 0\<rparr> (1 / 10 ^ 9) =
     Inr \<lparr>growth_pct = None, pnl_pct = None, vol_pct_daily = None, max_drawdown_pct = None\<rparr> \<and>
   window_return_metrics \<lparr>account_values = [(2, Fin 0), (1, Fin (- 5))], pnls = [], volume = Fin 0\<rparr>
       (1 / 10 ^ 9) =
     Inr \<lparr>growth_pct = None, pnl_pct = None, vol_pct_daily = None,
          max_drawdown_pct = Some (Fin 0)\<rparr> \<and>
   window_return_metrics \<lparr>account_values = [(1, NInf), (2, NInf)], pnls = [], volume = Fin 0\<rparr>
       (1 / 10 ^ 9) =
     Inr \<lparr>growth_pct = None, pnl_pct = None, vol_pct_daily = None, max_drawdown_pct = None\<rparr>"
proof -
  let ?w1 = "\<lparr>account_values = [(5, Fin 7)], pnls = [], volume = Fin 0\<rparr>"
  let ?w2 = "\<lparr>account_values = [(2, Fin 0), (1 :: int, Fin (- 5))], pnls = [], volume = Fin 0\<rparr>"
  let ?w3 = "\<lparr>account_values = [(1 :: int, NInf), (2, NInf)], pnls = [], volume = Fin 0\<rparr>"
  have fv2: "finite_values (map snd (sort_key fst (account_values ?w2))) = [- 5, 0]"
    by (simp add: finite_values_def List.map_filter_simps)
  have fv3: "finite_values (map snd (sort_key fst (account_values ?w3))) = []"
    by (simp add: finite_values_def List.map_filter_simps)
  have md2: "max_drawdown [- 5, 0 :: real] = Inr (Some 0)"
    by (simp add: max_drawdown_def py_div_def)
  have md3: "max_drawdown ([] :: real list) = Inr None"
    by (simp add: max_drawdown_def)
  have a: "window_return_metrics ?w1 (1 / 10 ^ 9) =
     Inr \<lparr>growth_pct = None, pnl_pct = None, vol_pct_daily = None, max_drawdown_pct = None\<rparr>"
    using window_return_metrics_null_cases [of ?w1 "1 / 10 ^ 9"] by simp
  have b: "window_return_metrics ?w2 (1 / 10 ^ 9) =
     Inr \<lparr>growth_pct = None, pnl_pct = None, vol_pct_daily = None,
          max_drawdown_pct = Some (Fin 0)\<rparr>"
    using window_return_metrics_null_cases [of ?w2 "1 / 10 ^ 9"] fv2 md2 by auto
  have c: "window_return_metrics ?w3 (1 / 10 ^ 9) =
     Inr \<lparr>growth_pct = None, pnl_pct = None, vol_pct_daily = None, max_drawdown_pct = None\<rparr>"
    using window_return_metrics_null_cases [of ?w3 "1 / 10 ^ 9"] fv3 md3 by auto
  from a b c show ?thesis by simp
qed

text \<open>
  The claim as written fails on the two-point series of zeros: every value is at most
  the epsilon, and the drawdown output is \<open>0.0\<close>, not \<^verbatim>\<open>None\<close>.
\<close>

theorem window_return_metrics_all_zero_drawdown:
  "window_return_metrics \<lparr>account_values = [(1, Fin 0), (2, Fin 0)], pnls = [], volume = Fin 0\<rparr>
     (1 / 10 ^ 9) =
     Inr \<lparr>growth_pct = None, pnl_pct = None, vol_pct_daily = None,
          max_drawdown_pct = Some (Fin 0)\<rparr>"
  by (simp add: window_return_metrics_def vol_pct_daily_of_def max_drawdown_pct_of_def
      max_drawdown_def finite_values_def List.map_filter_simps isfinite_def)

text \<open>
  C5. On the account values \<open>[0.0, 0.0, 100.0, 110.0]\<close> at strictly increasing
  timestamps, with an epsilon in \<open>[0, 100)\<close> (the default \<open>1e-9\<close> is one), the baseline
  index is 2, the value there is \<open>100.0\<close>, and the growth is
  \<open>(110 - 100) / 100 * 100 = 10.0\<close> per cent.
\<close>

theorem window_return_metrics_example:
  "t0 < t1 \<and> t1 < t2 \<and> t2 < t3 \<and> 0 \<le> baseline_eps \<and> baseline_eps < 100 \<and>
   account_values win = [(t0, Fin 0), (t1, Fin 0), (t2, Fin 100), (t3, Fin 110)] \<longrightarrow>
   find_base_idx 0 (map snd (sort_key fst (account_values win))) baseline_eps = Some 2 \<and>
   map snd (sort_key fst (account_values win)) ! 2 = Fin 100 \<and>
   (\<exists>m. window_return_metrics win baseline_eps = Inr m \<and>
        growth_pct m = Some (Fin ((110 - 100) / 100 * 100)) \<and> growth_pct m = Some (Fin 10))"
proof
  assume a: "t0 < t1 \<and> t1 < t2 \<and> t2 < t3 \<and> 0 \<le> baseline_eps \<and> baseline_eps < 100 \<and>
   account_values win = [(t0, Fin 0), (t1, Fin 0), (t2, Fin 100), (t3, Fin 110)]"
  let ?av = "[(t0, Fin 0), (t1, Fin 0), (t2, Fin 100), (t3, Fin 110)]"
  have srt: "sort_key fst ?av = ?av"
    using a by (intro sort_key_id_if_sorted) simp
  have base: "find_base_idx 0 (map snd ?av) baseline_eps = Some 2"
    using a by (simp add: isfinite_def)
  have fin: "finite_values [Fin 100, Fin 110] = [100, 110]"
    by (simp add: finite_values_def List.map_filter_simps)
  have vol: "\<exists>v. vol_pct_daily_of [100, 110] baseline_eps = Inr v"
    using a by (simp add: vol_pct_daily_of_def py_div_def)
  have mdd: "\<exists>d. max_drawdown_pct_of [100, 110] = Inr d"
    by (simp add: max_drawdown_pct_of_def max_drawdown_def py_div_def)
  have pnl: "\<exists>pp. pnl_pct_of (pnls win) t2 (Fin 100) = Inr pp"
    by (simp add: pnl_pct_of_def Let_def)
  from vol mdd pnl obtain v d pp where
    "vol_pct_daily_of [100, 110] baseline_eps = Inr v"
    "max_drawdown_pct_of [100, 110] = Inr d"
    "pnl_pct_of (pnls win) t2 (Fin 100) = Inr pp" by blast
  then have "window_return_metrics win baseline_eps =
     Inr \<lparr>growth_pct = Some (Fin 10), pnl_pct = pp, vol_pct_daily = map_option Fin v,
          max_drawdown_pct = map_option Fin d\<rparr>"
    using a srt base fin by (simp add: window_return_metrics_def Let_def)
  then show "find_base_idx 0 (map snd (sort_key fst (account_values win))) baseline_eps = Some 2 \<and>
   map snd (sort_key fst (account_values win)) ! 2 = Fin 100 \<and>
   (\<exists>m. window_return_metrics win baseline_eps = Inr m \<and>
        growth_pct m = Some (Fin ((110 - 100) / 100 * 100)) \<and> growth_pct m = Some (Fin 10))"
    using a srt base by simp
qed

theorem window_return_metrics_example_witness:
  "find_base_idx 0
     (map snd (sort_key fst [(1 :: int, Fin 0), (2, Fin 0), (3, Fin 100), (4, Fin 110)]))
     (1 / 10 ^ 9) = Some 2 \<and>
   (\<exists>m. window_return_metrics
          \<lparr>account_values = [(1, Fin 0), (2, Fin 0), (3, Fin 100), (4, Fin 110)], pnls = [],
           volume = Fin 0\<rparr>
          (1 / 10 ^ 9) = Inr m \<and> growth_pct m = Some (Fin 10))"
  using window_return_metrics_example
          [of 1 2 3 4 "1 / 10 ^ 9"
              "\<lparr>account_values = [(1, Fin 0), (2, Fin 0), (3, Fin 100), (4, Fin 110)], pnls = [],
                volume = Fin 0\<rparr>"]
  by simp

section \<open>Properties of the age inference\<close>

lemma map_of_dict_set: "map_of (dict_set d k v) = (map_of d)(k \<mapsto> v)"
  by (induction d k v rule: dict_set.induct) auto

lemma cur_by_coin_lookup:
  assumes "\<forall>p \<in> set ps. coin p = c \<longrightarrow> P (pos_size p)"
    and "c \<in> coin ` set ps \<or> (\<exists>s. map_of d0 c = Some s \<and> P s)"
  shows "\<exists>s. map_of (fold (\<lambda>p d. dict_set d (coin p) (pos_size p)) ps d0) c = Some s \<and> P s"
  using assms
proof (induction ps arbitrary: d0)
  case Nil
  then show ?case by simp
next
  case (Cons p ps)
  have "c \<in> coin ` set ps \<or> (\<exists>s. map_of (dict_set d0 (coin p) (pos_size p)) c = Some s \<and> P s)"
    using Cons.prems by (auto simp: map_of_dict_set)
  moreover have "\<forall>p \<in> set ps. coin p = c \<longrightarrow> P (pos_size p)"
    using Cons.prems(1) by simp
  ultimately show ?case
    using Cons.IH [of "dict_set d0 (coin p) (pos_size p)"] by simp
qed

lemma by_coin_one_coin:
  assumes "\<forall>f \<in> set fs. f_coin f = Some c" and "c \<in> needed"
  shows "fold (\<lambda>f d. case f_coin f of
                       Some c \<Rightarrow> if c \<in> needed then by_coin_add d c f else d
                     | None \<Rightarrow> d) fs [(c, acc)] = [(c, acc @ fs)]"
  using assms by (induction fs arbitrary: acc) auto

text \<open>
  \<open>timed f\<close>: the time of \<open>f\<close>, if it has one, is one that \<^verbatim>\<open>datetime.fromtimestamp\<close>
  accepts. \<open>quiet f\<close>: \<open>f\<close> passes none of the three tests of the loop body, so it adds to
  or reduces a position without opening, closing or flipping it.
\<close>

definition timed :: "fill \<Rightarrow> bool" where
  "timed f \<longleftrightarrow>
     (case f_time f of
        None \<Rightarrow> True
      | Some t_ms \<Rightarrow> fromtimestamp (real_of_int t_ms / 1000) = Inr (real_of_int t_ms / 1000))"

definition quiet :: "fill \<Rightarrow> bool" where
  "quiet f \<longleftrightarrow> \<not> opens f \<and> \<not> closes f \<and> \<not> flips f"

lemma track_fill_opens:
  assumes "f_time f = Some t" and "timed f" and "opens f"
  shows "track_fill f open_time = Inr (Some (real_of_int t / 1000))"
proof -
  have "\<not> closes f" using assms(3) by (simp add: opens_def closes_def)
  then show ?thesis
    using assms by (simp add: track_fill_def timed_def Let_def)
qed

lemma track_fill_quiet:
  assumes "timed f" and "quiet f"
  shows "track_fill f open_time = Inr open_time"
  using assms by (simp add: track_fill_def timed_def quiet_def Let_def split: option.splits)

lemma track_fill_timed:
  assumes "timed f"
  shows "\<exists>o'. track_fill f open_time = Inr o'"
  using assms by (simp add: track_fill_def timed_def Let_def split: option.splits)

lemma replay_fills_timed:
  "\<forall>f \<in> set fs. timed f \<Longrightarrow> \<exists>o'. replay_fills fs open_time = Inr o'"
proof (induction fs arbitrary: open_time)
  case Nil
  show ?case by simp
next
  case (Cons f fs)
  obtain o1 where "track_fill f open_time = Inr o1"
    using track_fill_timed [of f open_time] Cons.prems by auto
  then show ?case using Cons.IH [of o1] Cons.prems by simp
qed

lemma replay_fills_append:
  "replay_fills (xs @ ys) open_time =
     (case replay_fills xs open_time of Inl e \<Rightarrow> Inl e | Inr o' \<Rightarrow> replay_fills ys o')"
  by (induction xs arbitrary: open_time) (auto split: sum.splits)

lemma replay_fills_kept:
  assumes "f_time g = Some t" and "timed g" and "opens g"
    and "\<forall>f \<in> set fs. f = g \<or> (timed f \<and> quiet f)"
  shows "replay_fills fs (Some (real_of_int t / 1000)) = Inr (Some (real_of_int t / 1000))"
  using assms(4)
proof (induction fs)
  case Nil
  show ?case by simp
next
  case (Cons f fs)
  have "track_fill f (Some (real_of_int t / 1000)) = Inr (Some (real_of_int t / 1000))"
  proof (cases "f = g")
    case True
    then show ?thesis using track_fill_opens [OF assms(1,2,3)] by simp
  next
    case False
    then have "timed f \<and> quiet f" using Cons.prems by simp
    then show ?thesis using track_fill_quiet by blast
  qed
  then show ?case using Cons by simp
qed

text \<open>
  The replay of a log in which \<open>g\<close> opens a position at \<open>t\<close> and every other fill that is
  not earlier than \<open>t\<close> is quiet ends with the open time \<open>t\<close>, whatever the earlier fills
  are.
\<close>

lemma replay_sorted_last_open:
  assumes g: "g \<in> set fills" "f_time g = Some t" "opens g"
    and timed: "\<forall>f \<in> set fills. timed f"
    and later: "\<forall>f \<in> set fills. f = g \<or> time_key f < t \<or> quiet f"
  shows "replay_fills (sort_key time_key fills) None = Inr (Some (real_of_int t / 1000))"
proof -
  let ?srt = "sort_key time_key fills"
  have "g \<in> set ?srt" using g(1) by simp
  then obtain xs ys where split: "?srt = xs @ g # ys" by (meson split_list)
  have key: "time_key g = t" using g(2) by (simp add: time_key_def)
  have "sorted (map time_key (xs @ g # ys))"
    using split by (metis sorted_sort_key)
  then have after: "\<forall>y \<in> set ys. t \<le> time_key y"
    using key by (auto simp: sorted_append)
  have sub: "set xs \<subseteq> set fills" "set ys \<subseteq> set fills"
    using split by (metis Un_upper1 set_append set_sort, metis Un_upper2 set_append set_sort set_subset_Cons subset_trans)
  have tg: "timed g" using g(1) timed by blast
  have ys: "\<forall>f \<in> set ys. f = g \<or> (timed f \<and> quiet f)"
  proof
    fix f assume f: "f \<in> set ys"
    then have "f \<in> set fills" using sub(2) by blast
    moreover have "\<not> time_key f < t" using after f by auto
    ultimately show "f = g \<or> (timed f \<and> quiet f)" using later timed by blast
  qed
  obtain o1 where pre: "replay_fills xs None = Inr o1"
    using replay_fills_timed [of xs None] sub(1) timed by blast
  have "replay_fills (g # ys) o1 = Inr (Some (real_of_int t / 1000))"
    using track_fill_opens [OF g(2) tg g(3), of o1] replay_fills_kept [OF g(2) tg g(3) ys]
    by simp
  then show ?thesis
    using split pre by (simp add: replay_fills_append)
qed

text \<open>
  C7, as the code has it. The fill log of one instrument holds, in any order and among
  any other fills, a fill that opens a position at \<open>t0\<close>, a fill that closes it at \<open>t1\<close>
  (position after the fill within \<open>1e-10\<close> of zero) and a fill that reopens it at \<open>t2\<close>,
  with \<open>t0 < t1 < t2\<close>. No other fill at or after \<open>t2\<close> opens, closes or flips the
  position. Every time of the log is one that
  \<^verbatim>\<open>datetime.fromtimestamp\<close> accepts. The instrument is held with a current size of at
  least \<open>1e-10\<close> in absolute value. Then the function raises nothing, the inferred age is
  \<open>(now - t2)\<close> in days, and it is not the age from \<open>t0\<close>.
\<close>

theorem reopened_position_age:
  assumes log: "f0 \<in> set fills" "f1 \<in> set fills" "f2 \<in> set fills"
      "\<forall>f \<in> set fills. f_coin f = Some c"
    and times: "f_time f0 = Some t0" "f_time f1 = Some t1" "f_time f2 = Some t2"
      "t0 < t1" "t1 < t2"
    and events: "opens f0" "closes f1" "opens f2"
    and later: "\<forall>f \<in> set fills. f = f2 \<or> time_key f < t2 \<or> quiet f"
    and in_range: "\<forall>f \<in> set fills. timed f"
    and held: "c \<in> coin ` set positions"
      "\<forall>p \<in> set positions. coin p = c \<longrightarrow> \<bar>pos_size p\<bar> \<ge> age_eps"
  shows "\<exists>ages. infer_position_ages_from_fills now fills positions = Inr ages \<and>
           map_of ages c = Some ((now - real_of_int t2 / 1000) / 86400) \<and>
           map_of ages c \<noteq> Some ((now - real_of_int t0 / 1000) / 86400)"
proof -
  let ?needed = "coin ` set positions"
  let ?grp = "\<lambda>f d. case f_coin f of
                       Some c \<Rightarrow> if c \<in> ?needed then by_coin_add d c f else d
                     | None \<Rightarrow> d"
  let ?cur = "fold (\<lambda>p d. dict_set d (coin p) (pos_size p)) positions []"
  obtain g gs where fills: "fills = g # gs"
    using log(3) by (cases fills) auto
  note allc = log(4)
  have need: "c \<in> ?needed" using held(1) .
  have "fold ?grp fills [] = fold ?grp gs [(c, [g])]"
    using fills allc need by simp
  also have "\<dots> = [(c, [g] @ gs)]"
    using by_coin_one_coin [of gs c ?needed "[g]"] allc need fills by simp
  finally have by_coin: "fold ?grp fills [] = [(c, fills)]" using fills by simp
  have otime: "replay_fills (sort_key time_key fills) None = Inr (Some (real_of_int t2 / 1000))"
    using replay_sorted_last_open [OF log(3) times(3) events(3) in_range later] .
  obtain s where s: "map_of ?cur c = Some s" "\<bar>s\<bar> \<ge> age_eps"
    using cur_by_coin_lookup [of positions c "\<lambda>x. \<bar>x\<bar> \<ge> age_eps" "[]"] held by auto
  have age: "coin_age now s fills = Inr (Some ((now - real_of_int t2 / 1000) / 86400))"
    using s(2) otime by (simp add: coin_age_def Let_def)
  have res: "infer_position_ages_from_fills now fills positions =
        Inr [(c, (now - real_of_int t2 / 1000) / 86400)]"
    using by_coin s(1) age by (simp add: infer_position_ages_from_fills_def Let_def)
  show ?thesis using res times(4,5) by simp
qed

theorem reopened_position_age_witness:
  "\<exists>ages. infer_position_ages_from_fills 86403
     [\<lparr>f_coin = Some ''BTC'', f_time = Some 4000, f_startPosition = 2, f_side = ''B'', f_sz = 1\<rparr>,
      \<lparr>f_coin = Some ''BTC'', f_time = Some 3000, f_startPosition = 0, f_side = ''B'', f_sz = 2\<rparr>,
      \<lparr>f_coin = Some ''BTC'', f_time = Some 1000, f_startPosition = 0, f_side = ''B'', f_sz = 1\<rparr>,
      \<lparr>f_coin = Some ''BTC'', f_time = Some 2000, f_startPosition = 1, f_side = ''A'', f_sz = 1\<rparr>]
     [\<lparr>coin = ''BTC'', side = ''LONG'', pos_size = 3, entry_px = 100, mid_px = Some 100,
       position_value = 200, unrealized_pnl = 0, roe_pct = None, leverage = 5,
       liquidation_px = Some 80, margin_used = 40, notional_pct_equity = Some 10,
       liq_distance_pct = Some 20, age_days = None\<rparr>] = Inr ages \<and>
     map_of ages ''BTC'' = Some 1"
proof -
  let ?f0 = "\<lparr>f_coin = Some ''BTC'', f_time = Some 1000, f_startPosition = 0, f_side = ''B'', f_sz = 1\<rparr>"
  let ?f1 = "\<lparr>f_coin = Some ''BTC'', f_time = Some 2000, f_startPosition = 1, f_side = ''A'', f_sz = 1\<rparr>"
  let ?f2 = "\<lparr>f_coin = Some ''BTC'', f_time = Some 3000, f_startPosition = 0, f_side = ''B'', f_sz = 2\<rparr>"
  let ?f3 = "\<lparr>f_coin = Some ''BTC'', f_time = Some 4000, f_startPosition = 2, f_side = ''B'', f_sz = 1\<rparr>"
  let ?p = "\<lparr>coin = ''BTC'', side = ''LONG'', pos_size = 3, entry_px = 100, mid_px = Some 100,
       position_value = 200, unrealized_pnl = 0, roe_pct = None, leverage = 5,
       liquidation_px = Some 80, margin_used = 40, notional_pct_equity = Some 10,
       liq_distance_pct = Some 20, age_days = None\<rparr>"
  have "\<exists>ages. infer_position_ages_from_fills 86403 [?f3, ?f2, ?f0, ?f1] [?p] = Inr ages \<and>
          map_of ages ''BTC'' = Some ((86403 - real_of_int 3000 / 1000) / 86400) \<and>
          map_of ages ''BTC'' \<noteq> Some ((86403 - real_of_int 1000 / 1000) / 86400)"
    (is "\<exists>ages. ?res ages \<and> ?age ages \<and> ?other ages")
    by (rule reopened_position_age [of ?f0 "[?f3, ?f2, ?f0, ?f1]" ?f1 ?f2 "''BTC''" 1000 2000 3000
          "[?p]" 86403])
      (simp_all add: opens_def closes_def flips_def quiet_def timed_def fromtimestamp_def
        age_eps_def end_pos_def time_key_def)
  then obtain ages where r: "?res ages" and a: "?age ages" by blast
  from a have "map_of ages ''BTC'' = Some 1" by simp
  with r show ?thesis by blast
qed

text \<open>
  The claim as written fails in three ways. A position of size \<open>5e-11\<close> is not zero and
  is kept by \<^verbatim>\<open>extract_positions\<close>, yet the function skips it and infers no age. When a
  later fill closes the position again and the instrument is still held, the function
  falls back to the earliest fill and computes the age from \<open>t0\<close>. When the reopening
  fill has a time beyond the year 9999, \<^verbatim>\<open>datetime.fromtimestamp\<close> raises.
\<close>

theorem reopened_position_age_limits:
  "infer_position_ages_from_fills 86403
     [\<lparr>f_coin = Some ''BTC'', f_time = Some 3000, f_startPosition = 0, f_side = ''B'', f_sz = 2\<rparr>,
      \<lparr>f_coin = Some ''BTC'', f_time = Some 1000, f_startPosition = 0, f_side = ''B'', f_sz = 1\<rparr>,
      \<lparr>f_coin = Some ''BTC'', f_time = Some 2000, f_startPosition = 1, f_side = ''A'', f_sz = 1\<rparr>]
     [\<lparr>coin = ''BTC'', side = ''LONG'', pos_size = (5 / 10 ^ 11), entry_px = 100, mid_px = Some 100,
       position_value = 200, unrealized_pnl = 0, roe_pct = None, leverage = 5,
       liquidation_px = Some 80, margin_used = 40, notional_pct_equity = Some 10,
       liq_distance_pct = Some 20, age_days = None\<rparr>] = Inr [] \<and>
   infer_position_ages_from_fills 86401
     [\<lparr>f_coin = Some ''BTC'', f_time = Some 1000, f_startPosition = 0, f_side = ''B'', f_sz = 1\<rparr>,
      \<lparr>f_coin = Some ''BTC'', f_time = Some 2000, f_startPosition = 1, f_side = ''A'', f_sz = 1\<rparr>,
      \<lparr>f_coin = Some ''BTC'', f_time = Some 3000, f_startPosition = 0, f_side = ''B'', f_sz = 2\<rparr>,
      \<lparr>f_coin = Some ''BTC'', f_time = Some 4000, f_startPosition = 2, f_side = ''A'', f_sz = 2\<rparr>]
     [\<lparr>coin = ''BTC'', side = ''LONG'', pos_size = 2, entry_px = 100, mid_px = Some 100,
       position_value = 200, unrealized_pnl = 0, roe_pct = None, leverage = 5,
       liquidation_px = Some 80, margin_used = 40, notional_pct_equity = Some 10,
       liq_distance_pct = Some 20, age_days = None\<rparr>] = Inr [(''BTC'', 1)] \<and>
   infer_position_ages_from_fills 86403
     [\<lparr>f_coin = Some ''BTC'', f_time = Some 1000, f_startPosition = 0, f_side = ''B'', f_sz = 1\<rparr>,
      \<lparr>f_coin = Some ''BTC'', f_time = Some 2000, f_startPosition = 1, f_side = ''A'', f_sz = 1\<rparr>,
      \<lparr>f_coin = Some ''BTC'', f_time = Some 1000000000000000, f_startPosition = 0, f_side = ''B'', f_sz = 2\<rparr>]
     [\<lparr>coin = ''BTC'', side = ''LONG'', pos_size = 2, entry_px = 100, mid_px = Some 100,
       position_value = 200, unrealized_pnl = 0, roe_pct = None, leverage = 5,
       liquidation_px = Some 80, margin_used = 40, notional_pct_equity = Some 10,
       liq_distance_pct = Some 20, age_days = None\<rparr>] = Inl ValueError"
proof (intro conjI)
  show "infer_position_ages_from_fills 86403
     [\<lparr>f_coin = Some ''BTC'', f_time = Some 3000, f_startPosition = 0, f_side = ''B'', f_sz = 2\<rparr>,
      \<lparr>f_coin = Some ''BTC'', f_time = Some 1000, f_startPosition = 0, f_side = ''B'', f_sz = 1\<rparr>,
      \<lparr>f_coin = Some ''BTC'', f_time = Some 2000, f_startPosition = 1, f_side = ''A'', f_sz = 1\<rparr>]
     [\<lparr>coin = ''BTC'', side = ''LONG'', pos_size = (5 / 10 ^ 11), entry_px = 100, mid_px = Some 100,
       position_value = 200, unrealized_pnl = 0, roe_pct = None, leverage = 5,
       liquidation_px = Some 80, margin_used = 40, notional_pct_equity = Some 10,
       liq_distance_pct = Some 20, age_days = None\<rparr>] = Inr []"
    by (simp add: infer_position_ages_from_fills_def coin_age_def track_fill_def fromtimestamp_def
        opens_def closes_def flips_def end_pos_def age_eps_def time_key_def Let_def)
next
  show "infer_position_ages_from_fills 86401
     [\<lparr>f_coin = Some ''BTC'', f_time = Some 1000, f_startPosition = 0, f_side = ''B'', f_sz = 1\<rparr>,
      \<lparr>f_coin = Some ''BTC'', f_time = Some 2000, f_startPosition = 1, f_side = ''A'', f_sz = 1\<rparr>,
      \<lparr>f_coin = Some ''BTC'', f_time = Some 3000, f_startPosition = 0, f_side = ''B'', f_sz = 2\<rparr>,
      \<lparr>f_coin = Some ''BTC'', f_time = Some 4000, f_startPosition = 2, f_side = ''A'', f_sz = 2\<rparr>]
     [\<lparr>coin = ''BTC'', side = ''LONG'', pos_size = 2, entry_px = 100, mid_px = Some 100,
       position_value = 200, unrealized_pnl = 0, roe_pct = None, leverage = 5,
       liquidation_px = Some 80, margin_used = 40, notional_pct_equity = Some 10,
       liq_distance_pct = Some 20, age_days = None\<rparr>] = Inr [(''BTC'', 1)]"
    by (simp add: infer_position_ages_from_fills_def coin_age_def track_fill_def fromtimestamp_def
        opens_def closes_def flips_def end_pos_def age_eps_def time_key_def Let_def)
next
  show "infer_position_ages_from_fills 86403
     [\<lparr>f_coin = Some ''BTC'', f_time = Some 1000, f_startPosition = 0, f_side = ''B'', f_sz = 1\<rparr>,
      \<lparr>f_coin = Some ''BTC'', f_time = Some 2000, f_startPosition = 1, f_side = ''A'', f_sz = 1\<rparr>,
      \<lparr>f_coin = Some ''BTC'', f_time = Some 1000000000000000, f_startPosition = 0, f_side = ''B'', f_sz = 2\<rparr>]
     [\<lparr>coin = ''BTC'', side = ''LONG'', pos_size = 2, entry_px = 100, mid_px = Some 100,
       position_value = 200, unrealized_pnl = 0, roe_pct = None, leverage = 5,
       liquidation_px = Some 80, margin_used = 40, notional_pct_equity = Some 10,
       liq_distance_pct = Some 20, age_days = None\<rparr>] = Inl ValueError"
    by (simp add: infer_position_ages_from_fills_def coin_age_def track_fill_def fromtimestamp_def
        opens_def closes_def flips_def end_pos_def age_eps_def time_key_def Let_def)
qed

section \<open>Properties of the ranking\<close>












section \<open>Properties of the adaptive batch fetcher\<close>

lemma dict_set_keys: "fst ` set (dict_set d k v) = insert k (fst ` set d)"
  by (induction d k v rule: dict_set.induct) auto

lemma dict_set_distinct: "distinct (map fst d) \<Longrightarrow> distinct (map fst (dict_set d k v))"
proof (induction d k v rule: dict_set.induct)
  case (1 k v)
  then show ?case by simp
next
  case (2 k' v' kvs k v)
  show ?case
  proof (cases "k' = k")
    case True
    then show ?thesis using "2.prems" by simp
  next
    case False
    have "k' \<notin> fst ` set (dict_set kvs k v)"
      using False "2.prems" by (simp add: dict_set_keys)
    moreover have "distinct (map fst (dict_set kvs k v))"
      using False "2.IH" "2.prems" by simp
    ultimately show ?thesis using False by simp
  qed
qed

lemma fold_dict_set_keys:
  "fst ` set (fold (\<lambda>(k, v) acc. dict_set acc k v) other d) = fst ` set d \<union> fst ` set other"
proof (induction other arbitrary: d)
  case Nil
  show ?case by simp
next
  case (Cons kv other)
  obtain k v where kv: "kv = (k, v)" by (cases kv)
  have "fst ` set (fold (\<lambda>(k, v) acc. dict_set acc k v) (kv # other) d) =
        fst ` set (dict_set d k v) \<union> fst ` set other"
    using Cons.IH [of "dict_set d k v"] kv by simp
  then show ?case using kv by (simp add: dict_set_keys)
qed

lemma fold_dict_set_distinct:
  "distinct (map fst d) \<Longrightarrow> distinct (map fst (fold (\<lambda>(k, v) acc. dict_set acc k v) other d))"
proof (induction other arbitrary: d)
  case Nil
  then show ?case by simp
next
  case (Cons kv other)
  obtain k v where kv: "kv = (k, v)" by (cases kv)
  have "distinct (map fst (dict_set d k v))" using Cons.prems by (rule dict_set_distinct)
  from Cons.IH [OF this] show ?case using kv by simp
qed

lemma dict_update_keys: "fst ` set (dict_update d other) = fst ` set d \<union> fst ` set other"
  unfolding dict_update_def by (rule fold_dict_set_keys)

lemma dict_update_distinct:
  "distinct (map fst d) \<Longrightarrow> distinct (map fst (dict_update d other))"
  unfolding dict_update_def by (rule fold_dict_set_distinct)

lemma pair_results_cover:
  assumes "length resp = length part" and "pair_results part resp states failed = (states', failed')"
  shows "fst ` set states' \<union> set failed' = fst ` set states \<union> set failed \<union> set part \<and>
         (distinct (map fst states) \<longrightarrow> distinct (map fst states'))"
  using assms
proof (induction part resp states failed rule: pair_results.induct)
  case (1 addr part st resp states failed)
  show ?case
  proof (cases "is_dict st")
    case True
    then have "pair_results part resp (dict_set states addr st) failed = (states', failed')"
      using "1.prems" by simp
    then show ?thesis
      using "1.IH"(1) [OF True] "1.prems"(1) by (auto simp: dict_set_keys dict_set_distinct)
  next
    case False
    then have "pair_results part resp states (failed @ [addr]) = (states', failed')"
      using "1.prems" by simp
    then show ?thesis
      using "1.IH"(2) [OF False] "1.prems"(1) by auto
  qed
qed auto

lemma per_user_cover:
  assumes "per_user post w part states failed = ((states', failed'), w')"
  shows "fst ` set states' \<union> set failed' = fst ` set states \<union> set failed \<union> set part \<and>
         (distinct (map fst states) \<longrightarrow> distinct (map fst states'))"
  using assms
proof (induction part arbitrary: w states failed)
  case Nil
  then show ?case by simp
next
  case (Cons addr part)
  obtain st w1 where c: "clearinghouse_state post w addr = (st, w1)"
    by (cases "clearinghouse_state post w addr")
  show ?case
  proof (cases "truthy_dict st")
    case True
    then have "per_user post w1 part (dict_set states addr st) failed = ((states', failed'), w')"
      using Cons.prems c by simp
    from Cons.IH [OF this] show ?thesis
      by (auto simp: dict_set_keys dict_set_distinct)
  next
    case False
    then have "per_user post w1 part states (failed @ [addr]) = ((states', failed'), w')"
      using Cons.prems c by simp
    from Cons.IH [OF this] show ?thesis by auto
  qed
qed

lemma dedupe_loop_set:
  "seen = set out \<Longrightarrow> distinct out \<Longrightarrow>
   set (dedupe_loop items seen out) = set out \<union> set items \<and> distinct (dedupe_loop items seen out)"
proof (induction items arbitrary: seen out)
  case Nil
  then show ?case by simp
next
  case (Cons x items)
  show ?case
  proof (cases "x \<in> seen")
    case True
    then show ?thesis using Cons.IH [of seen out] Cons.prems by auto
  next
    case False
    have "insert x seen = set (out @ [x])" "distinct (out @ [x])"
      using False Cons.prems by auto
    from Cons.IH [OF this] show ?thesis using False by auto
  qed
qed

lemma dedupe_keep_order_set:
  "set (dedupe_keep_order items) = set items \<and> distinct (dedupe_keep_order items)"
  using dedupe_loop_set [of "{}" "[]" items] by (simp add: dedupe_keep_order_def)

lemma concat_chunks_step: "0 < n \<Longrightarrow> concat (chunks_step n lst) = lst"
proof (induction n lst rule: chunks_step.induct)
  case (1 n lst)
  show ?case
  proof (cases "lst = []")
    case True
    then show ?thesis by (subst chunks_step.simps) simp
  next
    case False
    then have "concat (chunks_step n lst) = take n lst @ concat (chunks_step n (drop n lst))"
      using "1.prems" by (subst chunks_step.simps) simp
    then show ?thesis using "1.IH" False "1.prems" by simp
  qed
qed

lemma batch_invariant:
  shows "1 \<le> min_batch_size \<Longrightarrow> 1 \<le> batch_size \<Longrightarrow>
     \<exists>st fl w'. batch_clearinghouse_states_adaptive post w users batch_size min_batch_size fb
                  = Inr ((st, fl), w') \<and>
       fst ` set st \<union> set fl = set users \<and> fst ` set st \<inter> set fl = {} \<and>
       distinct (map fst st) \<and> distinct fl"
    and "1 \<le> min_batch_size \<Longrightarrow> distinct (map fst states) \<Longrightarrow>
     \<exists>st fl w'. batch_parts post w parts min_batch_size fb states failed = Inr ((st, fl), w') \<and>
       fst ` set st \<union> set fl = fst ` set states \<union> set failed \<union> \<Union> (set ` set parts) \<and>
       distinct (map fst st)"
proof (induction post w users batch_size min_batch_size fb
        and post w parts min_batch_size fb states failed
        rule: batch_clearinghouse_states_adaptive_batch_parts.induct)
  case (1 post w users batch_size min_batch_size fb)
  let ?parts = "chunks_step (nat batch_size) users"
  have ch: "chunks users batch_size = Inr ?parts"
    using "1.prems"(2) by (simp add: chunks_def)
  have "distinct (map fst ([] :: (string \<times> json) list))" by simp
  from "1.IH" [OF ch "1.prems"(1) this]
  obtain st fl w' where r: "batch_parts post w ?parts min_batch_size fb [] [] = Inr ((st, fl), w')"
    and cover: "fst ` set st \<union> set fl = \<Union> (set ` set ?parts)"
    and dist: "distinct (map fst st)"
    by auto
  have "\<Union> (set ` set ?parts) = set (concat ?parts)" by simp
  also have "\<dots> = set users"
    using "1.prems"(2) by (simp add: concat_chunks_step)
  finally have cover': "fst ` set st \<union> set fl = set users" using cover by simp
  let ?failed = "filter (\<lambda>a. a \<notin> fst ` set st) (dedupe_keep_order fl)"
  have res: "batch_clearinghouse_states_adaptive post w users batch_size min_batch_size fb
             = Inr ((st, ?failed), w')"
    using ch r by (simp add: batch_clearinghouse_states_adaptive.simps)
  have "set ?failed = set fl - fst ` set st"
    using dedupe_keep_order_set [of fl] by auto
  then have "fst ` set st \<union> set ?failed = set users" "fst ` set st \<inter> set ?failed = {}"
    using cover' by auto
  moreover have "distinct ?failed"
    using dedupe_keep_order_set [of fl] by simp
  ultimately show ?case using res dist by blast
next
  case (2 post w min_batch_size fb states failed)
  then show ?case by (simp add: batch_parts.simps)
next
  case (3 post w part parts min_batch_size fb states failed)
  obtain resp w1 where pw: "post w (BatchClearinghouseStates part) = (resp, w1)"
    by (cases "post w (BatchClearinghouseStates part)")
  note m = "3.prems"(1)
  note d = "3.prems"(2)
  show ?case
  proof (cases "list_of_length resp (length part)")
    case True
    obtain s' f' where pr: "pair_results part (json_items resp) states failed = (s', f')"
      by (cases "pair_results part (json_items resp) states failed")
    have len: "length (json_items resp) = length part"
      using True by (auto simp: list_of_length_def json_items_def split: json.splits)
    have cov: "fst ` set s' \<union> set f' = fst ` set states \<union> set failed \<union> set part"
      and ds: "distinct (map fst s')"
      using pair_results_cover [OF len pr] d by simp_all
    have step: "batch_parts post w (part # parts) min_batch_size fb states failed =
                batch_parts post w1 parts min_batch_size fb s' f'"
      using pw True pr by (simp add: batch_parts.simps)
    from "3.IH"(1) [OF pw [symmetric] True pr [symmetric] m ds]
    show ?thesis using step cov by auto
  next
    case False
    show ?thesis
    proof (cases "min_batch_size < int (length part)")
      case split: True
      let ?left = "take (length part div 2) part"
      let ?right = "drop (length part div 2) part"
      have bl: "1 \<le> max min_batch_size (int (length ?left))" using m by simp
      have br: "1 \<le> max min_batch_size (int (length ?right))" using m by simp
      from "3.IH"(2) [OF pw [symmetric] False split refl refl refl m bl]
      obtain ss sf w2 where
        l: "batch_clearinghouse_states_adaptive post w1 ?left
              (max min_batch_size (int (length ?left))) min_batch_size fb = Inr ((ss, sf), w2)"
        and lc: "fst ` set ss \<union> set sf = set ?left"
        by blast
      from "3.IH"(3) [OF pw [symmetric] False split refl refl refl l refl refl m br]
      obtain ss' sf' w3 where
        r: "batch_clearinghouse_states_adaptive post w2 ?right
              (max min_batch_size (int (length ?right))) min_batch_size fb = Inr ((ss', sf'), w3)"
        and rc: "fst ` set ss' \<union> set sf' = set ?right"
        by blast
      let ?states = "dict_update (dict_update states ss) ss'"
      let ?failed = "(failed @ sf) @ sf'"
      have ds: "distinct (map fst ?states)"
        using d by (intro dict_update_distinct)
      have step: "batch_parts post w (part # parts) min_batch_size fb states failed =
                  batch_parts post w3 parts min_batch_size fb ?states ?failed"
        using pw False split l r by (simp add: batch_parts.simps Let_def)
      have lr: "set ?left \<union> set ?right = set part"
        using set_append [of ?left ?right] by (simp only: append_take_drop_id)
      have k: "fst ` set ?states = fst ` set states \<union> fst ` set ss \<union> fst ` set ss'"
        by (simp add: dict_update_keys)
      have f: "set ?failed = set failed \<union> set sf \<union> set sf'" by auto
      have "fst ` set ?states \<union> set ?failed =
            fst ` set states \<union> set failed \<union> ((fst ` set ss \<union> set sf) \<union> (fst ` set ss' \<union> set sf'))"
        unfolding k f by blast
      then have cov: "fst ` set ?states \<union> set ?failed =
                      fst ` set states \<union> set failed \<union> set part"
        unfolding lc rc lr .
      from "3.IH"(4) [OF pw [symmetric] False split refl refl refl l refl refl r refl refl m ds]
      show ?thesis using step cov by auto
    next
      case small: False
      show ?thesis
      proof (cases fb)
        case True
        obtain s' f' w2 where pu: "per_user post w1 part states failed = ((s', f'), w2)"
          by (metis surj_pair)
        have cov: "fst ` set s' \<union> set f' = fst ` set states \<union> set failed \<union> set part"
          and ds: "distinct (map fst s')"
          using per_user_cover [OF pu] d by simp_all
        have step: "batch_parts post w (part # parts) min_batch_size fb states failed =
                    batch_parts post w2 parts min_batch_size fb s' f'"
          using pw False small True pu by (simp add: batch_parts.simps)
        from "3.IH"(5) [OF pw [symmetric] False small True pu [symmetric] refl m ds]
        show ?thesis using step cov by auto
      next
        case nofb: False
        have step: "batch_parts post w (part # parts) min_batch_size fb states failed =
                    batch_parts post w1 parts min_batch_size fb states (failed @ part)"
          using pw False small nofb by (simp add: batch_parts.simps)
        from "3.IH"(6) [OF pw [symmetric] False small nofb m d]
        show ?thesis using step by auto
      qed
    qed
  qed
qed

text \<open>
  C1, as the code has it. For every duplicate-free list of \<open>N\<close> identifiers, every batch
  size of at least 1 and every minimum batch size of at least 1, and whatever the
  transport answers, \<^verbatim>\<open>batch_clearinghouse_states_adaptive\<close> returns (it raises
  nothing) a mapping and a failed list such that no identifier is in both, every input
  identifier is in exactly one of them, and their sizes add up to \<open>N\<close>.
\<close>

theorem batch_partitions_users:
  assumes "distinct users" and "1 \<le> batch_size" and "1 \<le> min_batch_size"
  shows "\<exists>states failed w'.
     batch_clearinghouse_states_adaptive post w users batch_size min_batch_size fallback_per_user
       = Inr ((states, failed), w') \<and>
     distinct (map fst states) \<and> distinct failed \<and>
     fst ` set states \<inter> set failed = {} \<and>
     fst ` set states \<union> set failed = set users \<and>
     length states + length failed = length users"
proof -
  from batch_invariant(1) [OF assms(3,2), of post w users fallback_per_user]
  obtain st fl w' where
    r: "batch_clearinghouse_states_adaptive post w users batch_size min_batch_size fallback_per_user
          = Inr ((st, fl), w')"
    and cover: "fst ` set st \<union> set fl = set users"
    and disj: "fst ` set st \<inter> set fl = {}"
    and ds: "distinct (map fst st)" and df: "distinct fl"
    by blast
  have "length st = card (fst ` set st)"
    using ds distinct_card [of "map fst st"] by simp
  moreover have "length fl = card (set fl)"
    using df distinct_card [of fl] by simp
  moreover have "card (fst ` set st \<union> set fl) = card (fst ` set st) + card (set fl)"
    using disj by (intro card_Un_disjoint) simp_all
  moreover have "card (set users) = length users"
    using assms(1) by (rule distinct_card)
  ultimately have "length st + length fl = length users"
    using cover by simp
  with r cover disj ds df show ?thesis by blast
qed

theorem batch_partitions_users_witness:
  "distinct [''0xa'', ''0xb''] \<and>
   batch_clearinghouse_states_adaptive
     (\<lambda>w p. case p of
        BatchClearinghouseStates us \<Rightarrow>
          (if us = [''0xa''] then JList [JDict [(''v'', JNum 1)]]
           else if us = [''0xb''] then JList [JNull]
           else JNull, w)
      | ClearinghouseState u \<Rightarrow> (JNull, w))
     () [''0xa'', ''0xb''] 2 1 True
   = Inr (([(''0xa'', JDict [(''v'', JNum 1)])], [''0xb'']), ()) \<and>
   (\<exists>states failed w'.
     batch_clearinghouse_states_adaptive
       (\<lambda>w p. case p of
          BatchClearinghouseStates us \<Rightarrow>
            (if us = [''0xa''] then JList [JDict [(''v'', JNum 1)]]
             else if us = [''0xb''] then JList [JNull]
             else JNull, w)
        | ClearinghouseState u \<Rightarrow> (JNull, w))
       () [''0xa'', ''0xb''] 2 1 True
     = Inr ((states, failed), w') \<and>
     fst ` set states \<inter> set failed = {} \<and>
     length states + length failed = 2)"
proof -
  let ?post = "\<lambda>(w::unit) p. case p of
        BatchClearinghouseStates us \<Rightarrow>
          (if us = [''0xa''] then JList [JDict [(''v'', JNum 1)]]
           else if us = [''0xb''] then JList [JNull]
           else JNull, w)
      | ClearinghouseState u \<Rightarrow> (JNull, w)"
  have d: "distinct [''0xa'', ''0xb'']" by simp
  have left: "batch_clearinghouse_states_adaptive ?post () [''0xa''] 1 1 True
      = Inr (([(''0xa'', JDict [(''v'', JNum 1)])], []), ())"
    by (simp add: batch_clearinghouse_states_adaptive.simps batch_parts.simps chunks_def
        chunks_step.simps list_of_length_def json_items_def is_dict_def dedupe_keep_order_def)
  have right: "batch_clearinghouse_states_adaptive ?post () [''0xb''] 1 1 True
      = Inr (([], [''0xb'']), ())"
    by (simp add: batch_clearinghouse_states_adaptive.simps batch_parts.simps chunks_def
        chunks_step.simps list_of_length_def json_items_def is_dict_def dedupe_keep_order_def)
  have v: "batch_clearinghouse_states_adaptive ?post () [''0xa'', ''0xb''] 2 1 True
      = Inr (([(''0xa'', JDict [(''v'', JNum 1)])], [''0xb'']), ())"
    using left right
    by (simp add: batch_clearinghouse_states_adaptive.simps batch_parts.simps chunks_def
        chunks_step.simps list_of_length_def dict_update_def dedupe_keep_order_def)
  show ?thesis
    using batch_partitions_users [OF d, of 2 1 ?post "()" True] d v by simp
qed

text \<open>
  The claim as written fails for sizes below 1. With batch size \<open>-1\<close> the list of parts is
  empty and the call returns an empty mapping and an empty failed list for one
  identifier. With minimum batch size \<open>0\<close> a failing part of one identifier is split,
  and the call on its empty left half raises \<^verbatim>\<open>ValueError\<close> (\<^verbatim>\<open>range\<close> with step 0).
\<close>

theorem batch_nonpositive_sizes:
  "batch_clearinghouse_states_adaptive (\<lambda>w p. (JNull, w)) () [''0xa''] (- 1) 5 True
     = Inr (([], []), ()) \<and>
   batch_clearinghouse_states_adaptive (\<lambda>w p. (JNull, w)) () [''0xa''] 25 0 True
     = Inl ValueError"
proof
  show "batch_clearinghouse_states_adaptive (\<lambda>w p. (JNull, w)) () [''0xa''] (- 1) 5 True
     = Inr (([], []), ())"
    by (simp add: batch_clearinghouse_states_adaptive.simps batch_parts.simps chunks_def
        dedupe_keep_order_def)
next
  have inner: "batch_clearinghouse_states_adaptive (\<lambda>w p. (JNull, w)) () [] 0 0 True
     = Inl ValueError"
    by (simp add: batch_clearinghouse_states_adaptive.simps chunks_def)
  show "batch_clearinghouse_states_adaptive (\<lambda>w p. (JNull, w)) () [''0xa''] 25 0 True
     = Inl ValueError"
    using inner
    by (simp add: batch_clearinghouse_states_adaptive.simps batch_parts.simps chunks_def
        chunks_step.simps list_of_length_def)
qed

section \<open>Properties of \<open>style_label\<close>\<close>

text \<open>
  C9. When the monthly volatility and the monthly drawdown are both \<^verbatim>\<open>None\<close>,
  \<^verbatim>\<open>style_label\<close> takes \<open>0.0\<close> for both and the label depends on the risk alone:
  \<open>aggressive\<close> iff \<open>risk \<ge> 70\<close>, \<open>balanced\<close> iff \<open>40 \<le> risk < 70\<close>, \<open>stable\<close> otherwise.
\<close>

theorem style_label_risk_only:
  "style_label risk None None = style_label risk (Some 0) (Some 0) \<and>
   (style_label risk None None = ''aggressive'' \<longleftrightarrow> 70 \<le> risk) \<and>
   (style_label risk None None = ''balanced'' \<longleftrightarrow> 40 \<le> risk \<and> risk < 70) \<and>
   (style_label risk None None = ''stable'' \<longleftrightarrow> risk < 40)"
  by (simp add: style_label_def)

theorem style_label_risk_only_witness:
  "style_label 70 None None = ''aggressive'' \<and> style_label 69 None None = ''balanced'' \<and>
   style_label 40 None None = ''balanced'' \<and> style_label 39 None None = ''stable''"
  using style_label_risk_only [of 70, THEN conjunct2]
    style_label_risk_only [of 69, THEN conjunct2]
    style_label_risk_only [of 40, THEN conjunct2]
    style_label_risk_only [of 39, THEN conjunct2]
  by simp

end
